theory Spec2Isabelle
  imports Complex_Main
begin

section \<open>Findings and likelihood ranks\<close>

text \<open>
  The redactor of \<^verbatim>\<open>src/custom/HDXGoogleDLPRedactor.ts\<close> works on the findings
  an inspection engine reports. A finding carries its likelihood name, the quoted text, the
  name of its info type and a byte range. The engine sends the two offsets of the range as
  decimal strings and leaves a field out when it is zero; the source reads them with
  \<^verbatim>\<open>Number(get(finding, 'location.byteRange.start', 0))\<close>. The model keeps an offset
  as the integer its string denotes, and \<open>None\<close> for a field that is absent. A string
  of the source is the list of its code units, which is what \<^verbatim>\<open>length\<close> and
  \<^verbatim>\<open>substring\<close> count.
\<close>

record Finding =
  likelihood :: string
  quote :: string
  infoType_name :: string
  byteRange_start :: "int option"
  byteRange_end :: "int option"

definition getFindingStart :: "Finding \<Rightarrow> int" where
  "getFindingStart finding = (case byteRange_start finding of None \<Rightarrow> 0 | Some n \<Rightarrow> n)"

definition getFindingEnd :: "Finding \<Rightarrow> int" where
  "getFindingEnd finding = (case byteRange_end finding of None \<Rightarrow> 0 | Some n \<Rightarrow> n)"

text \<open>
  The rank table as it is declared: the seven properties of the object
  \<^verbatim>\<open>likelihoodPriority\<close>, and \<open>None\<close> for a name that is not a property of its own.
\<close>

definition likelihoodPriority :: "string \<Rightarrow> int option" where
  "likelihoodPriority = map_of
     [(''EXCLUDE'', -1),
      (''LIKELIHOOD_UNSPECIFIED'', 0),
      (''VERY_UNLIKELY'', 1),
      (''UNLIKELY'', 2),
      (''POSSIBLE'', 3),
      (''LIKELY'', 4),
      (''VERY_LIKELY'', 5)]"

text \<open>
  The table and the filter policy are plain objects, and the source reads them with
  \<^verbatim>\<open>object[name]\<close>. Such a read yields the object's own property when it has one of
  that name, else the member of \<^verbatim>\<open>Object.prototype\<close> of that name when there is one,
  else \<^verbatim>\<open>undefined\<close>. The inherited members are functions, but for \<^verbatim>\<open>__proto__\<close>,
  which is the prototype object; a comparison turns such a value into the string listed
  here with its name.
\<close>

datatype js_value = Undefined | Number int | Inherited string

definition objectPrototype :: "(string \<times> string) list" where
  "objectPrototype =
     [(''constructor'', ''function Object() { [native code] }''),
      (''__defineGetter__'', ''function __defineGetter__() { [native code] }''),
      (''__defineSetter__'', ''function __defineSetter__() { [native code] }''),
      (''hasOwnProperty'', ''function hasOwnProperty() { [native code] }''),
      (''__lookupGetter__'', ''function __lookupGetter__() { [native code] }''),
      (''__lookupSetter__'', ''function __lookupSetter__() { [native code] }''),
      (''isPrototypeOf'', ''function isPrototypeOf() { [native code] }''),
      (''propertyIsEnumerable'', ''function propertyIsEnumerable() { [native code] }''),
      (''toString'', ''function toString() { [native code] }''),
      (''valueOf'', ''function valueOf() { [native code] }''),
      (''__proto__'', ''[object Object]''),
      (''toLocaleString'', ''function toLocaleString() { [native code] }'')]"

definition js_get :: "(string \<Rightarrow> int option) \<Rightarrow> string \<Rightarrow> js_value" where
  "js_get object name =
     (case object name of
        Some v \<Rightarrow> Number v
      | None \<Rightarrow>
          (case map_of objectPrototype name of
             Some s \<Rightarrow> Inherited s
           | None \<Rightarrow> Undefined))"

text \<open>
  The relational operators of the source on two such reads. Two numbers are compared as
  numbers, two inherited members as their strings, code unit by code unit; in every other
  pairing an operand becomes \<^verbatim>\<open>NaN\<close> and the comparison is false.
  \<open>js_not\<close> is \<^verbatim>\<open>!v\<close>: true of \<^verbatim>\<open>undefined\<close> and of \<^verbatim>\<open>0\<close>.
\<close>

fun str_lt :: "string \<Rightarrow> string \<Rightarrow> bool" where
  "str_lt [] [] = False"
| "str_lt [] (y # ys) = True"
| "str_lt (x # xs) [] = False"
| "str_lt (x # xs) (y # ys) =
     ((of_char x :: nat) < of_char y \<or> (x = y \<and> str_lt xs ys))"

definition js_gt :: "js_value \<Rightarrow> js_value \<Rightarrow> bool" where
  "js_gt a b =
     (case a of
        Number x \<Rightarrow> (case b of Number y \<Rightarrow> y < x | _ \<Rightarrow> False)
      | Inherited s \<Rightarrow> (case b of Inherited t \<Rightarrow> str_lt t s | _ \<Rightarrow> False)
      | Undefined \<Rightarrow> False)"

definition js_le :: "js_value \<Rightarrow> js_value \<Rightarrow> bool" where
  "js_le a b =
     (case a of
        Number x \<Rightarrow> (case b of Number y \<Rightarrow> x \<le> y | _ \<Rightarrow> False)
      | Inherited s \<Rightarrow> (case b of Inherited t \<Rightarrow> \<not> str_lt t s | _ \<Rightarrow> False)
      | Undefined \<Rightarrow> False)"

definition js_not :: "js_value \<Rightarrow> bool" where
  "js_not a = (case a of Undefined \<Rightarrow> True | Number v \<Rightarrow> v = 0 | Inherited s \<Rightarrow> False)"

section \<open>Sorting with a comparator\<close>

text \<open>
  \<^verbatim>\<open>Array.prototype.sort(compare)\<close> is stable: \<open>array_sort\<close> inserts each element
  in front of the first one it does not compare greater than, starting from the right end,
  so that equal elements keep their order.
\<close>

fun insertBy :: "('a \<Rightarrow> 'a \<Rightarrow> int) \<Rightarrow> 'a \<Rightarrow> 'a list \<Rightarrow> 'a list" where
  "insertBy compare x [] = [x]"
| "insertBy compare x (y # ys) =
     (if compare x y \<le> 0 then x # y # ys else y # insertBy compare x ys)"

definition array_sort :: "('a \<Rightarrow> 'a \<Rightarrow> int) \<Rightarrow> 'a list \<Rightarrow> 'a list" where
  "array_sort compare xs = foldr (insertBy compare) xs []"

definition byStart :: "Finding \<Rightarrow> Finding \<Rightarrow> int" where
  "byStart a b = getFindingStart a - getFindingStart b"

section \<open>The conflict resolver\<close>

text \<open>
  The loop of \<^verbatim>\<open>removeOverlappingFindings\<close> over the sorted findings, from index 1:
  \<open>resultFindings\<close> is never empty, and its last entry is \<^verbatim>\<open>previous\<close>.
\<close>

fun sweep :: "Finding list \<Rightarrow> Finding list \<Rightarrow> Finding list" where
  "sweep resultFindings [] = resultFindings"
| "sweep resultFindings (current # rest) =
     (let previous = last resultFindings in
      if getFindingStart current < getFindingEnd previous
      then (if js_gt (js_get likelihoodPriority (likelihood current))
                     (js_get likelihoodPriority (likelihood previous))
            then sweep (resultFindings[length resultFindings - 1 := current]) rest
            else sweep resultFindings rest)
      else sweep (resultFindings @ [current]) rest)"

definition removeOverlappingFindings :: "Finding list \<Rightarrow> Finding list" where
  "removeOverlappingFindings findings =
     (if length findings \<le> 1 then findings
      else (let sortedFindings = array_sort byStart findings
            in sweep [sortedFindings ! 0] (drop 1 sortedFindings)))"

section \<open>Errors, options and results\<close>

text \<open>
  What the source throws or rejects with is a value: \<open>TypeError\<close> for a property read
  on \<^verbatim>\<open>undefined\<close> and for \<^verbatim>\<open>reduce\<close> on an empty array without initial value,
  \<open>EngineFailure\<close> for a call of the inspection engine that is rejected.
\<close>

datatype error = TypeError | EngineFailure

text \<open>
  The filter argument is declared \<^verbatim>\<open>filter?: any\<close>. The model knows the policy as a
  plain object, given by its own properties (info type names with their minimum ranks),
  and \<open>None\<close> for an argument that is left out.
\<close>

type_synonym policy = "string \<Rightarrow> int option"

record HDXGoogleDLPRedactorOptions =
  maxContentSizeForBatch :: "int option"
  disableAutoBatchWhenContentSizeExceedsLimit :: bool
  includeInfoTypes :: "string list"
  customInfoTypes :: "string list"

text \<open>
  The constants the module reads when it is loaded. \<^verbatim>\<open>MAX_DLP_CONTENT_LENGTH\<close> is
  declared in \<^verbatim>\<open>./GoogleDLPRedactor\<close>, which is not among the sources at hand, and the
  environment can replace it, so it is a parameter; so is \<^verbatim>\<open>MAX_PROMISES\<close>, whose
  default is written out below. The limit is a whole number (\<^verbatim>\<open>parseInt\<close> of the
  variable, or the constant); \<^verbatim>\<open>MAX_PROMISES\<close> and the override of the batch size in
  the options are taken as whole numbers too. Half of an odd limit is not one: the sizes
  and indices of the loops are rationals (halves of whole numbers, which the numbers of
  the source represent exactly).
\<close>

record environment =
  MAX_CONTENT_LENGTH :: int
  MAX_PROMISES :: int

definition MAX_PROMISES_of :: "int option \<Rightarrow> int" where
  "MAX_PROMISES_of env_MAX_PROMISES =
     (case env_MAX_PROMISES of None \<Rightarrow> 5 | Some v \<Rightarrow> v)"

definition MIN_FINDING_QUOTE_LENGTH :: nat where
  "MIN_FINDING_QUOTE_LENGTH = 2"

record RedactorOutput =
  config_infoTypes :: "string list"
  metrics_findingsCap :: nat
  metrics_maxFindings :: nat
  output_text :: string
  findings :: "Finding list"

section \<open>The filter\<close>

text \<open>
  The callback of \<^verbatim>\<open>findings.filter\<close> in \<^verbatim>\<open>doRedactAsync\<close> and in
  \<^verbatim>\<open>doInspectStructured\<close>:
  \<^verbatim>\<open>filter[a.infoType.name] <= LIKELIHOOD_PRIORITY[a.likelihood] || !filter[a.infoType.name]\<close>.
  Reading a property of an undefined filter throws.
\<close>

definition keepFinding :: "policy option \<Rightarrow> Finding \<Rightarrow> error + bool" where
  "keepFinding filter_arg a =
     (case filter_arg of
        None \<Rightarrow> Inl TypeError
      | Some p \<Rightarrow>
          Inr (js_le (js_get p (infoType_name a)) (js_get likelihoodPriority (likelihood a))
               \<or> js_not (js_get p (infoType_name a))))"

fun filterFindings :: "policy option \<Rightarrow> Finding list \<Rightarrow> error + Finding list" where
  "filterFindings filter_arg [] = Inr []"
| "filterFindings filter_arg (a # as) =
     (case keepFinding filter_arg a of
        Inl e \<Rightarrow> Inl e
      | Inr keep \<Rightarrow>
          (case filterFindings filter_arg as of
             Inl e \<Rightarrow> Inl e
           | Inr kept \<Rightarrow> Inr (if keep then a # kept else kept)))"

section \<open>Substitution\<close>

text \<open>
  \<^verbatim>\<open>textToRedact.indexOf(find) >= 0\<close> and \<^verbatim>\<open>textToRedact.replace(find, name)\<close>, which
  replaces the first occurrence. The replacement is taken literally (info type names hold
  no \<^verbatim>\<open>$\<close>).
\<close>

fun indexOf_found :: "string \<Rightarrow> string \<Rightarrow> bool" where
  "indexOf_found [] find_str = (find_str = [])"
| "indexOf_found (c # cs) find_str =
     (take (length find_str) (c # cs) = find_str \<or> indexOf_found cs find_str)"

fun replace_first :: "string \<Rightarrow> string \<Rightarrow> string \<Rightarrow> string" where
  "replace_first [] find_str name = (if find_str = [] then name else [])"
| "replace_first (c # cs) find_str name =
     (if take (length find_str) (c # cs) = find_str then name @ drop (length find_str) (c # cs)
      else c # replace_first cs find_str name)"

text \<open>The loop \<^verbatim>\<open>while (numSearches++ < 1000 && ...)\<close> runs at most 1000 times.\<close>

fun replaceLoop :: "nat \<Rightarrow> string \<Rightarrow> string \<Rightarrow> string \<Rightarrow> string" where
  "replaceLoop 0 textToRedact find_str name = textToRedact"
| "replaceLoop (Suc searches) textToRedact find_str name =
     (if indexOf_found textToRedact find_str
      then replaceLoop searches (replace_first textToRedact find_str name) find_str name
      else textToRedact)"

definition replaceFinding :: "string \<Rightarrow> Finding \<Rightarrow> string" where
  "replaceFinding textToRedact finding =
     (let find_str = quote finding in
      if find_str \<noteq> infoType_name finding \<and> MIN_FINDING_QUOTE_LENGTH \<le> length find_str
      then replaceLoop 1000 textToRedact find_str (infoType_name finding)
      else textToRedact)"

text \<open>
  The comparator of the second sort, highest likelihood first. A difference with a read
  that is not a number is \<^verbatim>\<open>NaN\<close>, which \<^verbatim>\<open>sort\<close> reads as 0.
\<close>

definition byLikelihoodDesc :: "Finding \<Rightarrow> Finding \<Rightarrow> int" where
  "byLikelihoodDesc a b =
     (case js_get likelihoodPriority (likelihood b) of
        Number y \<Rightarrow>
          (case js_get likelihoodPriority (likelihood a) of Number x \<Rightarrow> y - x | _ \<Rightarrow> 0)
      | _ \<Rightarrow> 0)"

section \<open>One call of the engine\<close>

text \<open>
  \<open>engine\<close> is the inspection service: the findings it answers for a content, or a
  rejection. \<^verbatim>\<open>getInspectConfig\<close> contributes the info type names of the result (an
  \<^verbatim>\<open>inspectConfig\<close> override in the options is not modelled).

  With \<^verbatim>\<open>replaceText\<close> the filtered array is handed to \<open>removeOverlappingFindings\<close>,
  which sorts it in place when it holds more than one finding; the result's
  \<^verbatim>\<open>findings\<close> is that same array, not the resolver's output.
\<close>

definition getInspectConfig_names :: "HDXGoogleDLPRedactorOptions \<Rightarrow> string list" where
  "getInspectConfig_names opts = includeInfoTypes opts @ customInfoTypes opts"

definition doRedactAsync ::
  "HDXGoogleDLPRedactorOptions \<Rightarrow> (string \<Rightarrow> error + Finding list) \<Rightarrow>
   string \<Rightarrow> policy option \<Rightarrow> bool \<Rightarrow> error + RedactorOutput" where
  "doRedactAsync opts engine textToRedact filter_arg replaceText =
     (case engine textToRedact of
        Inl e \<Rightarrow> Inl e
      | Inr raw \<Rightarrow>
          (let metrics = (\<lambda>t fs.
                 \<lparr>config_infoTypes = getInspectConfig_names opts,
                  metrics_findingsCap = (if 2000 \<le> length raw then 1 else 0),
                  metrics_maxFindings = length raw,
                  output_text = t,
                  findings = fs\<rparr>)
           in if 0 < length raw then
                (case filterFindings filter_arg raw of
                   Inl e \<Rightarrow> Inl e
                 | Inr filteredFindings \<Rightarrow>
                     if replaceText then
                       (let findingsWithoutOverlaps = removeOverlappingFindings filteredFindings;
                            filteredFindings' =
                              (if length filteredFindings \<le> 1 then filteredFindings
                               else array_sort byStart filteredFindings);
                            byLikelihood = array_sort byLikelihoodDesc findingsWithoutOverlaps
                        in Inr (metrics (foldl replaceFinding textToRedact byLikelihood)
                                  filteredFindings'))
                     else Inr (metrics textToRedact filteredFindings))
              else Inr (metrics textToRedact raw)))"

text \<open>
  \<^verbatim>\<open>doInspectStructured\<close> sends a table. A response without findings is read as the
  empty list; the text of the result is empty.
\<close>

definition doInspectStructured ::
  "HDXGoogleDLPRedactorOptions \<Rightarrow>
   (string list \<Rightarrow> string list list \<Rightarrow> error + Finding list option) \<Rightarrow>
   string list \<Rightarrow> string list list \<Rightarrow> policy option \<Rightarrow> error + RedactorOutput" where
  "doInspectStructured opts tableEngine headers rows filter_arg =
     (case tableEngine headers rows of
        Inl e \<Rightarrow> Inl e
      | Inr response \<Rightarrow>
          (let raw = (case response of None \<Rightarrow> [] | Some fs \<Rightarrow> fs);
               metrics = (\<lambda>fs.
                 \<lparr>config_infoTypes = getInspectConfig_names opts,
                  metrics_findingsCap = (if 2000 \<le> length raw then 1 else 0),
                  metrics_maxFindings = length raw,
                  output_text = [],
                  findings = fs\<rparr>)
           in if 0 < length raw then
                (case filterFindings filter_arg raw of
                   Inl e \<Rightarrow> Inl e
                 | Inr filteredFindings \<Rightarrow> Inr (metrics filteredFindings))
              else Inr (metrics raw)))"

section \<open>Batching\<close>

text \<open>
  The indices of \<^verbatim>\<open>substring\<close> and \<^verbatim>\<open>slice\<close> are numbers, of which both take the
  integral part. \<^verbatim>\<open>String.prototype.substring\<close> clamps both indices into the string and
  swaps them when they are out of order; \<^verbatim>\<open>Array.prototype.slice\<close> counts a negative
  index from the end.
\<close>

definition js_toInteger :: "rat \<Rightarrow> int" where
  "js_toInteger x = (if 0 \<le> x then \<lfloor>x\<rfloor> else \<lceil>x\<rceil>)"

definition js_substring :: "string \<Rightarrow> rat \<Rightarrow> rat \<Rightarrow> string" where
  "js_substring s start finish =
     (let len = int (length s);
          a = max 0 (min (js_toInteger start) len);
          b = max 0 (min (js_toInteger finish) len)
      in take (nat (max a b - min a b)) (drop (nat (min a b)) s))"

definition js_slice :: "'a list \<Rightarrow> rat \<Rightarrow> rat \<Rightarrow> 'a list" where
  "js_slice xs start finish =
     (let len = int (length xs);
          relativeStart = js_toInteger start;
          relativeEnd = js_toInteger finish;
          k = (if relativeStart < 0 then max (len + relativeStart) 0 else min relativeStart len);
          final = (if relativeEnd < 0 then max (len + relativeEnd) 0 else min relativeEnd len)
      in take (nat (final - k)) (drop (nat k) xs))"

text \<open>
  A promise is modelled by its outcome. \<^verbatim>\<open>await Promise.all(batchPromises)\<close> yields all
  the values, or is rejected with the rejection of an entry (the first in the array here).
\<close>

fun promise_all :: "(error + 'a) list \<Rightarrow> error + 'a list" where
  "promise_all [] = Inr []"
| "promise_all (p # ps) =
     (case p of
        Inl e \<Rightarrow> Inl e
      | Inr v \<Rightarrow> (case promise_all ps of Inl e \<Rightarrow> Inl e | Inr vs \<Rightarrow> Inr (v # vs)))"

text \<open>
  The run of a batched request is observed through a trace of events: \<open>Call b\<close> when the engine call
  for the batch \<open>b\<close> is issued, \<open>AwaitAll\<close> when \<^verbatim>\<open>await Promise.all\<close> has settled.
\<close>

datatype 'c event = Call 'c | AwaitAll

text \<open>
  The \<^verbatim>\<open>while\<close> loop that \<^verbatim>\<open>redactAsync\<close> and \<^verbatim>\<open>inspectStructured\<close> share word
  for word, followed by the last \<^verbatim>\<open>await Promise.all\<close>. \<open>slice\<close> cuts the batch
  (\<^verbatim>\<open>substring\<close> or \<^verbatim>\<open>slice\<close>), \<open>call\<close> is the request for one batch, \<open>n\<close> the length of
  the content. The loop need not end: its result is \<open>None\<close> when it does not.
\<close>

partial_function (option) batchLoop ::
  "(rat \<Rightarrow> rat \<Rightarrow> 'c) \<Rightarrow> ('c \<Rightarrow> error + RedactorOutput) \<Rightarrow> rat \<Rightarrow> rat \<Rightarrow> int \<Rightarrow>
   (error + RedactorOutput) list \<Rightarrow> rat \<Rightarrow> RedactorOutput list \<Rightarrow> 'c event list \<Rightarrow>
   ((error + RedactorOutput list) \<times> 'c event list) option" where
  "batchLoop slice call n maxContentSize maxPromises batchPromises batchStartIndex batchResults trace =
     (if batchStartIndex < n then
        (let batchEndIndex = batchStartIndex + maxContentSize;
             batch = slice batchStartIndex batchEndIndex;
             batchPromises' = batchPromises @ [call batch];
             trace' = trace @ [Call batch]
         in if maxPromises \<le> int (length batchPromises') then
              (case promise_all batchPromises' of
                 Inl e \<Rightarrow> Some (Inl e, trace' @ [AwaitAll])
               | Inr rs \<Rightarrow>
                   batchLoop slice call n maxContentSize maxPromises [] batchEndIndex
                     (batchResults @ rs) (trace' @ [AwaitAll]))
            else batchLoop slice call n maxContentSize maxPromises batchPromises' batchEndIndex
                   batchResults trace')
      else (case promise_all batchPromises of
              Inl e \<Rightarrow> Some (Inl e, trace @ [AwaitAll])
            | Inr rs \<Rightarrow> Some (Inr (batchResults @ rs), trace @ [AwaitAll])))"

declare batchLoop.simps [code]

text \<open>\<^verbatim>\<open>xs.reduce(f)\<close> without initial value throws on an empty array.\<close>

fun reduce1 :: "('a \<Rightarrow> 'a \<Rightarrow> 'a) \<Rightarrow> 'a list \<Rightarrow> error + 'a" where
  "reduce1 f [] = Inl TypeError"
| "reduce1 f (x # xs) = Inr (foldl f x xs)"

definition mergeResults :: "RedactorOutput list \<Rightarrow> error + RedactorOutput" where
  "mergeResults batchResults =
     (case reduce1 (\<lambda>a b. a @ b) (map findings batchResults) of
        Inl e \<Rightarrow> Inl e
      | Inr fs \<Rightarrow>
     (case reduce1 (\<lambda>a b. a @ b) (map output_text batchResults) of
        Inl e \<Rightarrow> Inl e
      | Inr t \<Rightarrow>
     (case reduce1 (\<lambda>a b. b) (map config_infoTypes batchResults) of
        Inl e \<Rightarrow> Inl e
      | Inr names \<Rightarrow>
     (case reduce1 max (map metrics_maxFindings batchResults) of
        Inl e \<Rightarrow> Inl e
      | Inr maxFindings \<Rightarrow>
     (case reduce1 (\<lambda>a b. a + b) (map metrics_findingsCap batchResults) of
        Inl e \<Rightarrow> Inl e
      | Inr findingsCap \<Rightarrow>
          Inr \<lparr>config_infoTypes = names,
               metrics_findingsCap = findingsCap,
               metrics_maxFindings = maxFindings,
               output_text = t,
               findings = fs\<rparr>)))))"

text \<open>
  \<^verbatim>\<open>this.opts.maxContentSizeForBatch || MAX_CONTENT_LENGTH / 2\<close>: the quotient is that of
  numbers, 3.5 for the limit 7.
\<close>

definition maxContentSize :: "environment \<Rightarrow> HDXGoogleDLPRedactorOptions \<Rightarrow> rat" where
  "maxContentSize env opts =
     (case maxContentSizeForBatch opts of
        None \<Rightarrow> of_int (MAX_CONTENT_LENGTH env) / 2
      | Some v \<Rightarrow> (if v = 0 then of_int (MAX_CONTENT_LENGTH env) / 2 else of_int v))"

text \<open>
  \<^verbatim>\<open>redactAsync\<close> with its trace. It calls \<^verbatim>\<open>doRedactAsync(batchText, filter)\<close>: the third
  parameter, \<^verbatim>\<open>replaceText\<close>, is left at its default \<^verbatim>\<open>false\<close>.
\<close>

definition redactAsync_run ::
  "environment \<Rightarrow> HDXGoogleDLPRedactorOptions \<Rightarrow> (string \<Rightarrow> error + Finding list) \<Rightarrow>
   string \<Rightarrow> policy option \<Rightarrow> ((error + RedactorOutput) \<times> string event list) option" where
  "redactAsync_run env opts engine textToRedact filter_arg =
     (if maxContentSize env opts < of_nat (length textToRedact)
         \<and> \<not> disableAutoBatchWhenContentSizeExceedsLimit opts
      then
        (case batchLoop (js_substring textToRedact)
                (\<lambda>batchText. doRedactAsync opts engine batchText filter_arg False)
                (of_nat (length textToRedact)) (maxContentSize env opts) (MAX_PROMISES env)
                [] 0 [] [] of
           None \<Rightarrow> None
         | Some (Inl e, trace) \<Rightarrow> Some (Inl e, trace)
         | Some (Inr batchResults, trace) \<Rightarrow> Some (mergeResults batchResults, trace))
      else Some (doRedactAsync opts engine textToRedact filter_arg False,
                 [Call textToRedact, AwaitAll]))"

definition redactAsync ::
  "environment \<Rightarrow> HDXGoogleDLPRedactorOptions \<Rightarrow> (string \<Rightarrow> error + Finding list) \<Rightarrow>
   string \<Rightarrow> policy option \<Rightarrow> (error + RedactorOutput) option" where
  "redactAsync env opts engine textToRedact filter_arg =
     map_option fst (redactAsync_run env opts engine textToRedact filter_arg)"

text \<open>
  \<^verbatim>\<open>Math.trunc(50000 / headers.length / 2) - 1\<close>. Without headers the quotient is
  \<^verbatim>\<open>Infinity\<close>, here \<open>None\<close>; with headers the truncated quotient of the positive numbers
  is the integer quotient.
\<close>

definition structuredMaxContentSize :: "string list \<Rightarrow> int option" where
  "structuredMaxContentSize headers =
     (if length headers = 0 then None
      else Some (50000 div int (length headers) div 2 - 1))"

definition inspectStructured_run ::
  "environment \<Rightarrow> HDXGoogleDLPRedactorOptions \<Rightarrow>
   (string list \<Rightarrow> string list list \<Rightarrow> error + Finding list option) \<Rightarrow>
   string list \<Rightarrow> string list list \<Rightarrow> policy option \<Rightarrow>
   ((error + RedactorOutput) \<times> (string list \<times> string list list) event list) option" where
  "inspectStructured_run env opts tableEngine headers rows filter_arg =
     (case structuredMaxContentSize headers of
        None \<Rightarrow>
          Some (doInspectStructured opts tableEngine headers rows filter_arg,
                [Call (headers, rows), AwaitAll])
      | Some maxSize \<Rightarrow>
          if maxSize < int (length rows) then
            (case batchLoop (\<lambda>i j. (headers, js_slice rows i j))
                    (\<lambda>(hs, rowsBatch). doInspectStructured opts tableEngine hs rowsBatch filter_arg)
                    (of_nat (length rows)) (of_int maxSize) (MAX_PROMISES env) [] 0 [] [] of
               None \<Rightarrow> None
             | Some (Inl e, trace) \<Rightarrow> Some (Inl e, trace)
             | Some (Inr batchResults, trace) \<Rightarrow> Some (mergeResults batchResults, trace))
          else Some (doInspectStructured opts tableEngine headers rows filter_arg,
                     [Call (headers, rows), AwaitAll]))"

definition inspectStructured ::
  "environment \<Rightarrow> HDXGoogleDLPRedactorOptions \<Rightarrow>
   (string list \<Rightarrow> string list list \<Rightarrow> error + Finding list option) \<Rightarrow>
   string list \<Rightarrow> string list list \<Rightarrow> policy option \<Rightarrow> (error + RedactorOutput) option" where
  "inspectStructured env opts tableEngine headers rows filter_arg =
     map_option fst (inspectStructured_run env opts tableEngine headers rows filter_arg)"

section \<open>Notions the properties are stated with\<close>

text \<open>Two spans overlap when each starts before the other ends.\<close>

definition overlaps :: "Finding \<Rightarrow> Finding \<Rightarrow> bool" where
  "overlaps a b \<longleftrightarrow>
     getFindingStart a < getFindingEnd b \<and> getFindingStart b < getFindingEnd a"

text \<open>
  The sweep keeps more than the absence of overlaps: every kept finding ends at or before
  the start of every finding kept after it.
\<close>

definition apart :: "Finding \<Rightarrow> Finding \<Rightarrow> bool" where
  "apart a b \<longleftrightarrow> getFindingEnd a \<le> getFindingStart b"

text \<open>
  The rank of a finding is the table's entry for its likelihood; \<open>rankValue\<close> reads it as
  a number where the name is one of the table's (and as 0 elsewhere: the statements below
  use it under that hypothesis only).
\<close>

definition rank :: "Finding \<Rightarrow> int option" where
  "rank f = likelihoodPriority (likelihood f)"

definition rankValue :: "Finding \<Rightarrow> int" where
  "rankValue f = (case rank f of None \<Rightarrow> 0 | Some r \<Rightarrow> r)"

text \<open>
  A cluster is a set of findings of the input any two of which overlap; it is maximal
  when no further finding of the input overlaps all of its members.
\<close>

definition mutuallyOverlapping :: "Finding set \<Rightarrow> bool" where
  "mutuallyOverlapping K \<longleftrightarrow> (\<forall>a\<in>K. \<forall>b\<in>K. a \<noteq> b \<longrightarrow> overlaps a b)"

definition maximalCluster :: "Finding set \<Rightarrow> Finding set \<Rightarrow> bool" where
  "maximalCluster U K \<longleftrightarrow>
     K \<noteq> {} \<and> K \<subseteq> U \<and> mutuallyOverlapping K
   \<and> (\<forall>f\<in>U. f \<notin> K \<longrightarrow> \<not> mutuallyOverlapping (insert f K))"

text \<open>
  The inputs on which clusters do not chain: every likelihood is a name of the table,
  every span holds at least one byte, and overlapping is transitive.
\<close>

definition regular :: "Finding set \<Rightarrow> bool" where
  "regular U \<longleftrightarrow>
     (\<forall>f\<in>U. rank f \<noteq> None)
   \<and> (\<forall>f\<in>U. getFindingStart f < getFindingEnd f)
   \<and> (\<forall>a\<in>U. \<forall>b\<in>U. \<forall>c\<in>U. overlaps a b \<and> overlaps b c \<longrightarrow> overlaps a c)"

text \<open>
  The invariant of the sweep on such inputs. Among the findings \<open>ds\<close> swept so far,
  \<open>w\<close> has won against \<open>g\<close> when they overlap, \<open>g\<close> does not rank above \<open>w\<close>, and \<open>w\<close> is
  the first of its rank among the findings that overlap \<open>g\<close>. The kept list \<open>res\<close>
  resolves \<open>ds\<close> when it holds a winner for each of them.
\<close>

definition wins :: "Finding list \<Rightarrow> Finding \<Rightarrow> Finding \<Rightarrow> bool" where
  "wins ds w g \<longleftrightarrow>
     overlaps g w \<and> rankValue g \<le> rankValue w
   \<and> (\<exists>pre post. filter (overlaps g) ds = pre @ w # post
         \<and> (\<forall>x\<in>set pre. rankValue x < rankValue w))"

definition resolved :: "Finding list \<Rightarrow> Finding list \<Rightarrow> bool" where
  "resolved res ds \<longleftrightarrow>
     res \<noteq> [] \<and> sorted_wrt apart res \<and> set res \<subseteq> set ds
   \<and> (\<forall>g\<in>set ds. \<exists>w\<in>set res. wins ds w g)"

text \<open>
  The position in the content at which the \<open>k\<close>-th batch starts when the batch size is
  \<open>S\<close>: the integral part of \<open>k * S\<close>.
\<close>

definition sliceStart :: "rat \<Rightarrow> nat \<Rightarrow> nat" where
  "sliceStart S k = nat \<lfloor>of_nat k * S\<rfloor>"

text \<open>The batches of a trace, in the order of their calls.\<close>

definition calls :: "'c event list \<Rightarrow> 'c list" where
  "calls tr = concat (map (\<lambda>e. case e of Call b \<Rightarrow> [b] | AwaitAll \<Rightarrow> []) tr)"

text \<open>
  The calls in flight at the end of a trace are those issued since the last
  \<^verbatim>\<open>await Promise.all\<close> settled. A trace is \<open>bounded\<close> by a number when at no moment
  more calls than that are in flight. A wave is a run of calls and the await that
  settles them.
\<close>

definition inFlight :: "'c event list \<Rightarrow> nat" where
  "inFlight tr = foldl (\<lambda>k e. case e of Call b \<Rightarrow> Suc k | AwaitAll \<Rightarrow> 0) 0 tr"

definition bounded :: "int \<Rightarrow> 'c event list \<Rightarrow> bool" where
  "bounded maxp tr \<longleftrightarrow> (\<forall>k\<le>length tr. int (inFlight (take k tr)) \<le> maxp)"

definition wave :: "'c list \<Rightarrow> 'c event list" where
  "wave batch = map Call batch @ [AwaitAll]"

section \<open>Example inputs\<close>

text \<open>
  The three findings of the doc comment of \<^verbatim>\<open>removeOverlappingFindings\<close> for
  "My name is John D.", with the ranks 4, 5 and 3 the specification gives them.
\<close>

definition person_name :: Finding where
  "person_name =
     \<lparr>likelihood = ''LIKELY'', quote = ''John D.'', infoType_name = ''PERSON_NAME'',
      byteRange_start = Some 11, byteRange_end = Some 17\<rparr>"

definition first_name :: Finding where
  "first_name =
     \<lparr>likelihood = ''VERY_LIKELY'', quote = ''John'', infoType_name = ''FIRST_NAME'',
      byteRange_start = Some 11, byteRange_end = Some 15\<rparr>"

definition last_name :: Finding where
  "last_name =
     \<lparr>likelihood = ''POSSIBLE'', quote = ''D.'', infoType_name = ''LAST_NAME'',
      byteRange_start = Some 15, byteRange_end = Some 17\<rparr>"

text \<open>
  Two findings at the start of a text, one with a likelihood the rank table does not hold,
  and a finding of a custom info type that is named like a member every object inherits.
\<close>

definition certain_email :: Finding where
  "certain_email =
     \<lparr>likelihood = ''CERTAIN'', quote = ''a@b.org'', infoType_name = ''EMAIL_ADDRESS'',
      byteRange_start = None, byteRange_end = Some 7\<rparr>"

definition likely_email :: Finding where
  "likely_email =
     \<lparr>likelihood = ''LIKELY'', quote = ''a@b.org'', infoType_name = ''EMAIL_ADDRESS'',
      byteRange_start = None, byteRange_end = Some 7\<rparr>"

definition constructor_finding :: Finding where
  "constructor_finding =
     \<lparr>likelihood = ''LIKELY'', quote = ''John D.'', infoType_name = ''constructor'',
      byteRange_start = Some 11, byteRange_end = Some 17\<rparr>"

definition email_floor :: policy where
  "email_floor = [''EMAIL_ADDRESS'' \<mapsto> 0]"

definition email_likely :: policy where
  "email_likely = [''EMAIL_ADDRESS'' \<mapsto> 4]"

definition no_opts :: HDXGoogleDLPRedactorOptions where
  "no_opts =
     \<lparr>maxContentSizeForBatch = None, disableAutoBatchWhenContentSizeExceedsLimit = False,
      includeInfoTypes = [], customInfoTypes = []\<rparr>"

definition default_env :: environment where
  "default_env = \<lparr>MAX_CONTENT_LENGTH = 524288, MAX_PROMISES = MAX_PROMISES_of None\<rparr>"

text \<open>A small limit: batches of four characters, two calls at a time.\<close>

definition small_env :: environment where
  "small_env = \<lparr>MAX_CONTENT_LENGTH = 8, MAX_PROMISES = 2\<rparr>"

text \<open>An odd limit: the batch size is 3.5.\<close>

definition odd_env :: environment where
  "odd_env = \<lparr>MAX_CONTENT_LENGTH = 7, MAX_PROMISES = 2\<rparr>"

section \<open>Properties of the sort\<close>

lemma insertBy_byStart: "insertBy byStart x ys = insort_key getFindingStart x ys"
  by (induction ys) (simp_all add: byStart_def)

lemma array_sort_byStart: "array_sort byStart xs = sort_key getFindingStart xs"
proof -
  have "insertBy byStart = insort_key getFindingStart"
    by (intro ext) (rule insertBy_byStart)
  then show ?thesis
    by (simp add: array_sort_def sort_key_def)
qed

lemma array_sort_byStart_sorted: "sorted (map getFindingStart (array_sort byStart xs))"
  by (simp add: array_sort_byStart)

lemma array_sort_byStart_set: "set (array_sort byStart xs) = set xs"
  by (simp add: array_sort_byStart)

lemma array_sort_byStart_length: "length (array_sort byStart xs) = length xs"
  by (simp add: array_sort_byStart)

section \<open>The output of the resolver has no overlap\<close>

lemma update_last: "rs \<noteq> [] \<Longrightarrow> rs[length rs - 1 := c] = butlast rs @ [c]"
  by (induction rs rule: rev_induct) (simp_all add: list_update_append)

lemma apart_replace_last:
  assumes rs: "rs \<noteq> []" and ap: "sorted_wrt apart rs"
    and le: "getFindingStart (last rs) \<le> getFindingStart c"
  shows "sorted_wrt apart (butlast rs @ [c])"
proof -
  from rs have split: "rs = butlast rs @ [last rs]" by simp
  with ap have ap': "sorted_wrt apart (butlast rs @ [last rs])" by simp
  then have front: "sorted_wrt apart (butlast rs)"
    and each: "\<forall>p\<in>set (butlast rs). apart p (last rs)"
    by (simp_all add: sorted_wrt_append)
  from each le have "\<forall>p\<in>set (butlast rs). apart p c"
    by (auto simp: apart_def)
  with front show ?thesis
    by (simp add: sorted_wrt_append)
qed

lemma apart_push:
  assumes rs: "rs \<noteq> []" and ap: "sorted_wrt apart rs"
    and le: "getFindingStart (last rs) \<le> getFindingStart c"
    and no: "\<not> getFindingStart c < getFindingEnd (last rs)"
  shows "sorted_wrt apart (rs @ [c])"
proof -
  from rs have split: "rs = butlast rs @ [last rs]" by simp
  with ap have "sorted_wrt apart (butlast rs @ [last rs])" by simp
  then have each: "\<forall>p\<in>set (butlast rs). apart p (last rs)"
    by (simp add: sorted_wrt_append)
  have "apart p c" if "p \<in> set rs" for p
  proof -
    from that split have "p \<in> set (butlast rs) \<or> p = last rs"
      by (metis Un_iff empty_iff insert_iff list.set(1) list.set(2) set_append)
    then show ?thesis
      using each le no by (auto simp: apart_def)
  qed
  with ap show ?thesis
    by (simp add: sorted_wrt_append)
qed

lemma sweep_apart:
  assumes "rs \<noteq> []" and "sorted_wrt apart rs"
    and "sorted (map getFindingStart rest)"
    and "\<forall>x\<in>set rest. getFindingStart (last rs) \<le> getFindingStart x"
  shows "sorted_wrt apart (sweep rs rest)"
  using assms
proof (induction rest arbitrary: rs)
  case Nil
  then show ?case by simp
next
  case (Cons c rest)
  from Cons.prems have le: "getFindingStart (last rs) \<le> getFindingStart c"
    and later: "\<forall>x\<in>set rest. getFindingStart c \<le> getFindingStart x"
    and srt: "sorted (map getFindingStart rest)"
    by simp_all
  show ?case
  proof (cases "getFindingStart c < getFindingEnd (last rs)")
    case True
    show ?thesis
    proof (cases "js_gt (js_get likelihoodPriority (likelihood c))
        (js_get likelihoodPriority (likelihood (last rs)))")
      case win: True
      have "sorted_wrt apart (sweep (butlast rs @ [c]) rest)"
        using apart_replace_last [OF Cons.prems(1,2) le] srt later
        by (intro Cons.IH) simp_all
      with True win Cons.prems(1) show ?thesis
        by (simp add: update_last [simplified])
    next
      case lose: False
      have "sorted_wrt apart (sweep rs rest)"
        using Cons.prems srt by (intro Cons.IH) simp_all
      with True lose show ?thesis by simp
    qed
  next
    case False
    have "sorted_wrt apart (sweep (rs @ [c]) rest)"
      using apart_push [OF Cons.prems(1,2) le False] srt later
      by (intro Cons.IH) simp_all
    with False show ?thesis by simp
  qed
qed

lemma removeOverlappingFindings_apart:
  assumes "1 < length fs"
  shows "sorted_wrt apart (removeOverlappingFindings fs)"
proof -
  define s where "s = array_sort byStart fs"
  have "length s = length fs"
    unfolding s_def by (rule array_sort_byStart_length)
  with assms have "s \<noteq> []"
    by auto
  then obtain x xs where s: "s = x # xs" by (cases s) auto
  have "sorted (map getFindingStart s)"
    unfolding s_def by (rule array_sort_byStart_sorted)
  with s have "sorted (map getFindingStart xs)"
    and "\<forall>y\<in>set xs. getFindingStart x \<le> getFindingStart y"
    by simp_all
  then have "sorted_wrt apart (sweep [x] xs)"
    by (intro sweep_apart) simp_all
  with assms s show ?thesis
    by (simp add: removeOverlappingFindings_def s_def [symmetric])
qed

text \<open>
  C1. For every list of fs, no two entries of the output of
  \<open>removeOverlappingFindings\<close> overlap: at two different positions of the output the
  spans never satisfy \<open>a.start < b.end\<close> and \<open>b.start < a.end\<close> together.
\<close>

theorem removeOverlappingFindings_no_overlap:
  assumes "i < length (removeOverlappingFindings fs)"
    and "j < length (removeOverlappingFindings fs)"
    and "i \<noteq> j"
  shows "\<not> overlaps (removeOverlappingFindings fs ! i)
             (removeOverlappingFindings fs ! j)"
proof (cases "1 < length fs")
  case True
  let ?out = "removeOverlappingFindings fs"
  have ap: "sorted_wrt apart ?out"
    by (rule removeOverlappingFindings_apart [OF True])
  have "apart (?out ! a) (?out ! b)" if "a < b" "b < length ?out" for a b
    using ap that by (simp add: sorted_wrt_iff_nth_less)
  with assms have "apart (?out ! i) (?out ! j) \<or> apart (?out ! j) (?out ! i)"
    by (metis nat_neq_iff)
  then show ?thesis
    by (auto simp: apart_def overlaps_def)
next
  case False
  with assms show ?thesis
    by (simp add: removeOverlappingFindings_def)
qed

theorem removeOverlappingFindings_no_overlap_witness:
  "removeOverlappingFindings [person_name, first_name, last_name] = [first_name, last_name]
   \<and> \<not> overlaps (removeOverlappingFindings [person_name, first_name, last_name] ! 0)
            (removeOverlappingFindings [person_name, first_name, last_name] ! 1)"
proof -
  have out: "removeOverlappingFindings [person_name, first_name, last_name]
      = [first_name, last_name]"
    by (simp add: removeOverlappingFindings_def array_sort_def byStart_def getFindingStart_def
        getFindingEnd_def person_name_def first_name_def last_name_def js_gt_def
        likelihoodPriority_def js_get_def)
  have "\<not> overlaps (removeOverlappingFindings [person_name, first_name, last_name] ! 0)
            (removeOverlappingFindings [person_name, first_name, last_name] ! 1)"
    by (rule removeOverlappingFindings_no_overlap) (simp_all add: out)
  with out show ?thesis by simp
qed

section \<open>Clusters of overlapping findings\<close>

text \<open>
  On a \<open>regular\<close> input overlapping is an equivalence, its classes are the maximal
  clusters, and the sort by start puts each class in one block. The sweep then resolves
  block after block: the three lemmas \<open>step_push\<close>, \<open>step_keep\<close> and \<open>step_replace\<close>
  follow its three branches.
\<close>

lemma overlaps_sym: "overlaps a b \<Longrightarrow> overlaps b a"
  by (simp add: overlaps_def)

lemma regular_refl: "regular U \<Longrightarrow> a \<in> U \<Longrightarrow> overlaps a a"
  by (simp add: regular_def overlaps_def)

lemma regular_trans:
  "regular U \<Longrightarrow> a \<in> U \<Longrightarrow> b \<in> U \<Longrightarrow> c \<in> U \<Longrightarrow> overlaps a b \<Longrightarrow> overlaps b c \<Longrightarrow>
   overlaps a c"
  unfolding regular_def by blast

lemma regular_outranks:
  assumes "regular U" "a \<in> U" "b \<in> U"
  shows "js_gt (js_get likelihoodPriority (likelihood a)) (js_get likelihoodPriority (likelihood b))
     \<longleftrightarrow> rankValue b < rankValue a"
proof -
  from assms obtain x y where "rank a = Some x" "rank b = Some y"
    unfolding regular_def by blast
  then show ?thesis
    by (simp add: js_gt_def js_get_def rankValue_def rank_def)
qed

lemma apart_unique:
  assumes ap: "sorted_wrt apart res" and u: "u \<in> set res" and v: "v \<in> set res"
    and ov: "overlaps u v"
  shows "u = v"
proof -
  from u v obtain i j where i: "i < length res" "res ! i = u" and j: "j < length res" "res ! j = v"
    by (auto simp: in_set_conv_nth)
  have no: "\<not> overlaps (res ! a) (res ! b)" if "a < b" "b < length res" for a b
  proof -
    from ap that have "apart (res ! a) (res ! b)"
      by (simp add: sorted_wrt_iff_nth_less)
    then show ?thesis by (auto simp: apart_def overlaps_def)
  qed
  show ?thesis
  proof (rule ccontr)
    assume "u \<noteq> v"
    with i j have "i < j \<or> j < i" by (metis nat_neq_iff)
    with no [of i j] no [of j i] i j ov overlaps_sym [OF ov] show False
      by auto
  qed
qed

lemma apart_last:
  assumes "res \<noteq> []" "sorted_wrt apart res" "w \<in> set res" "w \<noteq> last res"
  shows "w \<in> set (butlast res) \<and> apart w (last res)"
proof -
  from assms(1) have split: "res = butlast res @ [last res]" by simp
  with assms(3,4) have mem: "w \<in> set (butlast res)"
    by (metis Un_iff empty_iff insert_iff list.set(1) list.set(2) set_append)
  from assms(2) split have "sorted_wrt apart (butlast res @ [last res])" by simp
  with mem show ?thesis by (simp add: sorted_wrt_append)
qed

lemma wins_snoc:
  assumes "wins ds w g"
  shows "wins (ds @ [c]) w g"
proof -
  from assms obtain pre post where ov: "overlaps g w" and rk: "rankValue g \<le> rankValue w"
    and split: "filter (overlaps g) ds = pre @ w # post"
    and low: "\<forall>x\<in>set pre. rankValue x < rankValue w"
    unfolding wins_def by blast
  from split have "filter (overlaps g) (ds @ [c])
      = pre @ w # (post @ (if overlaps g c then [c] else []))"
    by simp
  with ov rk low show ?thesis
    unfolding wins_def by blast
qed

lemma wins_replace:
  assumes "overlaps g c" and "rankValue g \<le> rankValue c"
    and "\<forall>x\<in>set (filter (overlaps g) ds). rankValue x < rankValue c"
  shows "wins (ds @ [c]) c g"
proof -
  from assms(1) have "filter (overlaps g) (ds @ [c]) = filter (overlaps g) ds @ c # []"
    by simp
  with assms show ?thesis
    unfolding wins_def by blast
qed

lemma test_overlaps:
  assumes reg: "regular U" and inv: "resolved res ds" and sub: "set ds \<subseteq> U" and cU: "c \<in> U"
    and le: "\<forall>g\<in>set ds. getFindingStart g \<le> getFindingStart c"
  shows "getFindingStart c < getFindingEnd (last res) \<longleftrightarrow> overlaps (last res) c"
proof -
  from inv have "last res \<in> set ds"
    unfolding resolved_def using last_in_set by blast
  with le have "getFindingStart (last res) \<le> getFindingStart c" by simp
  moreover from reg cU have "getFindingStart c < getFindingEnd c"
    by (simp add: regular_def)
  ultimately show ?thesis
    by (auto simp: overlaps_def)
qed

lemma survivor_last:
  assumes reg: "regular U" and inv: "resolved res ds" and sub: "set ds \<subseteq> U" and cU: "c \<in> U"
    and le: "\<forall>g\<in>set ds. getFindingStart g \<le> getFindingStart c"
    and g: "g \<in> set ds" and w: "w \<in> set res" and gw: "overlaps g w" and gc: "overlaps g c"
  shows "w = last res"
proof (rule ccontr)
  assume other: "w \<noteq> last res"
  from inv have ne: "res \<noteq> []" and ap: "sorted_wrt apart res" and rd: "set res \<subseteq> set ds"
    by (simp_all add: resolved_def)
  from apart_last [OF ne ap w other] have "apart w (last res)" by simp
  moreover from ne rd le have "getFindingStart (last res) \<le> getFindingStart c"
    using last_in_set by blast
  ultimately have "\<not> overlaps c w"
    by (auto simp: apart_def overlaps_def)
  moreover from g w rd sub have "g \<in> U" "w \<in> U" by auto
  with reg cU overlaps_sym [OF gc] gw have "overlaps c w"
    by (blast intro: regular_trans)
  ultimately show False by simp
qed

lemma step_push:
  assumes reg: "regular U" and inv: "resolved res ds" and sub: "set ds \<subseteq> U" and cU: "c \<in> U"
    and le: "\<forall>g\<in>set ds. getFindingStart g \<le> getFindingStart c"
    and no: "\<not> overlaps (last res) c"
  shows "resolved (res @ [c]) (ds @ [c])"
proof -
  from inv have ne: "res \<noteq> []" and ap: "sorted_wrt apart res" and rd: "set res \<subseteq> set ds"
    and win: "\<forall>g\<in>set ds. \<exists>w\<in>set res. wins ds w g"
    by (simp_all add: resolved_def)
  have alone: "\<not> overlaps g c" if g: "g \<in> set ds" for g
  proof
    assume gc: "overlaps g c"
    from win g obtain w where w: "w \<in> set res" "wins ds w g" by blast
    then have gw: "overlaps g w" by (simp add: wins_def)
    from survivor_last [OF reg inv sub cU le g w(1) gw gc] have "w = last res" .
    moreover from g w rd sub have "g \<in> U" "w \<in> U" by auto
    with reg cU overlaps_sym [OF gw] gc have "overlaps w c"
      by (blast intro: regular_trans)
    ultimately show False using no by simp
  qed
  from ne rd le have start: "getFindingStart (last res) \<le> getFindingStart c"
    using last_in_set by blast
  from no test_overlaps [OF reg inv sub cU le]
  have "\<not> getFindingStart c < getFindingEnd (last res)" by simp
  from apart_push [OF ne ap start this] have ap': "sorted_wrt apart (res @ [c])" .
  have "\<exists>w\<in>set (res @ [c]). wins (ds @ [c]) w g" if "g \<in> set (ds @ [c])" for g
  proof (cases "g \<in> set ds")
    case True
    with win obtain w where "w \<in> set res" "wins ds w g" by blast
    then show ?thesis by (auto intro: wins_snoc)
  next
    case False
    with that have g: "g = c" by simp
    have "filter (overlaps c) ds = []"
      using alone by (auto simp: filter_empty_conv dest: overlaps_sym)
    with regular_refl [OF reg cU] have "wins (ds @ [c]) c c"
      unfolding wins_def by (auto intro!: exI [of _ "[]"])
    with g show ?thesis by simp
  qed
  with ap' rd show ?thesis
    by (auto simp: resolved_def)
qed

lemma step_keep:
  assumes reg: "regular U" and inv: "resolved res ds" and sub: "set ds \<subseteq> U" and cU: "c \<in> U"
    and le: "\<forall>g\<in>set ds. getFindingStart g \<le> getFindingStart c"
    and ov: "overlaps (last res) c" and rk: "\<not> rankValue (last res) < rankValue c"
  shows "resolved res (ds @ [c])"
proof -
  from inv have ne: "res \<noteq> []" and ap: "sorted_wrt apart res" and rd: "set res \<subseteq> set ds"
    and win: "\<forall>g\<in>set ds. \<exists>w\<in>set res. wins ds w g"
    by (simp_all add: resolved_def)
  let ?p = "last res"
  from ne have p: "?p \<in> set res" by simp
  with rd sub have pU: "?p \<in> U" and pd: "?p \<in> set ds" by auto
  from win pd obtain w where w: "w \<in> set res" "wins ds w ?p" by blast
  then have "overlaps ?p w" by (simp add: wins_def)
  from apart_unique [OF ap p w(1) this] w have pp: "wins ds ?p ?p" by simp
  have same: "overlaps c x \<longleftrightarrow> overlaps ?p x" if "x \<in> set ds" for x
  proof -
    from that sub have "x \<in> U" by auto
    with reg cU pU ov overlaps_sym [OF ov] show ?thesis
      by (blast intro: regular_trans)
  qed
  then have "filter (overlaps c) ds = filter (overlaps ?p) ds"
    by (intro filter_cong) simp_all
  with pp rk overlaps_sym [OF ov] have "wins ds ?p c"
    by (auto simp: wins_def)
  then have "wins (ds @ [c]) ?p c" by (rule wins_snoc)
  with p have "\<exists>w\<in>set res. wins (ds @ [c]) w c" by blast
  moreover have "\<exists>w\<in>set res. wins (ds @ [c]) w g" if "g \<in> set ds" for g
    using win that by (blast intro: wins_snoc)
  ultimately show ?thesis
    using ne ap rd by (auto simp: resolved_def)
qed

lemma below_last:
  assumes reg: "regular U" and inv: "resolved res ds" and sub: "set ds \<subseteq> U" and cU: "c \<in> U"
    and le: "\<forall>g\<in>set ds. getFindingStart g \<le> getFindingStart c"
    and x: "x \<in> set ds" and xc: "overlaps x c"
  shows "rankValue x \<le> rankValue (last res) \<and> wins ds (last res) x"
proof -
  from inv x obtain w where w: "w \<in> set res" "wins ds w x"
    unfolding resolved_def by blast
  then have "overlaps x w" by (simp add: wins_def)
  from survivor_last [OF reg inv sub cU le x w(1) this xc] w show ?thesis
    by (simp add: wins_def)
qed

lemma step_replace:
  assumes reg: "regular U" and inv: "resolved res ds" and sub: "set ds \<subseteq> U" and cU: "c \<in> U"
    and le: "\<forall>g\<in>set ds. getFindingStart g \<le> getFindingStart c"
    and ov: "overlaps (last res) c" and rk: "rankValue (last res) < rankValue c"
  shows "resolved (butlast res @ [c]) (ds @ [c])"
proof -
  from inv have ne: "res \<noteq> []" and ap: "sorted_wrt apart res" and rd: "set res \<subseteq> set ds"
    and win: "\<forall>g\<in>set ds. \<exists>w\<in>set res. wins ds w g"
    by (simp_all add: resolved_def)
  let ?p = "last res"
  from ne rd sub have pU: "?p \<in> U" and pd: "?p \<in> set ds"
    using last_in_set by blast+
  from pd le have start: "getFindingStart ?p \<le> getFindingStart c" by simp
  from apart_replace_last [OF ne ap start]
  have ap': "sorted_wrt apart (butlast res @ [c])" .
  have sub': "set (butlast res @ [c]) \<subseteq> set (ds @ [c])"
    using rd by (auto dest: in_set_butlastD)
  have low: "rankValue x < rankValue c" if "x \<in> set ds" "overlaps x c" for x
    using below_last [OF reg inv sub cU le that] rk by simp
  have beaten: "wins (ds @ [c]) c g" if g: "g \<in> set ds" and gc: "overlaps g c" for g
  proof (rule wins_replace [OF gc])
    from low [OF g gc] show "rankValue g \<le> rankValue c" by simp
    show "\<forall>x\<in>set (filter (overlaps g) ds). rankValue x < rankValue c"
    proof
      fix x assume "x \<in> set (filter (overlaps g) ds)"
      then have x: "x \<in> set ds" and gx: "overlaps g x" by simp_all
      from x g sub have "x \<in> U" "g \<in> U" by auto
      with reg cU overlaps_sym [OF gx] gc have "overlaps x c"
        by (blast intro: regular_trans)
      from low [OF x this] show "rankValue x < rankValue c" .
    qed
  qed
  have own: "wins (ds @ [c]) c c"
  proof (rule wins_replace)
    from regular_refl [OF reg cU] show "overlaps c c" .
    show "rankValue c \<le> rankValue c" by simp
    show "\<forall>x\<in>set (filter (overlaps c) ds). rankValue x < rankValue c"
      using low by (auto dest: overlaps_sym)
  qed
  have "\<exists>w\<in>set (butlast res @ [c]). wins (ds @ [c]) w g" if "g \<in> set (ds @ [c])" for g
  proof (cases "g \<in> set ds")
    case False
    with that own show ?thesis by simp
  next
    case g: True
    show ?thesis
    proof (cases "overlaps g c")
      case True
      from beaten [OF g True] show ?thesis by simp
    next
      case False
      from win g obtain w where w: "w \<in> set res" "wins ds w g" by blast
      then have gw: "overlaps g w" by (simp add: wins_def)
      have "w \<noteq> ?p"
      proof
        assume "w = ?p"
        with gw have "overlaps g ?p" by simp
        moreover from g sub have "g \<in> U" by auto
        ultimately have "overlaps g c"
          using reg pU cU ov by (blast intro: regular_trans)
        with False show False by simp
      qed
      from apart_last [OF ne ap w(1) this] have "w \<in> set (butlast res)" by simp
      with wins_snoc [OF w(2), of c] show ?thesis by auto
    qed
  qed
  with ap' sub' show ?thesis
    by (simp add: resolved_def)
qed

lemma sweep_resolved:
  assumes reg: "regular U" and inv: "resolved res ds" and sub: "set (ds @ rest) \<subseteq> U"
    and srt: "sorted (map getFindingStart (ds @ rest))"
  shows "resolved (sweep res rest) (ds @ rest)"
  using inv sub srt
proof (induction rest arbitrary: res ds)
  case Nil
  then show ?case by simp
next
  case (Cons c rest)
  from Cons.prems have sub: "set ds \<subseteq> U" and cU: "c \<in> U"
    and le: "\<forall>g\<in>set ds. getFindingStart g \<le> getFindingStart c"
    by (auto simp: sorted_append)
  note inv = Cons.prems(1)
  from inv have "last res \<in> set ds"
    unfolding resolved_def using last_in_set by blast
  with sub have pU: "last res \<in> U" by auto
  note test = test_overlaps [OF reg inv sub cU le]
  note outranks = regular_outranks [OF reg cU pU]
  from inv have ne: "res \<noteq> []" by (simp add: resolved_def)
  have next_sub: "set ((ds @ [c]) @ rest) \<subseteq> U"
    and next_srt: "sorted (map getFindingStart ((ds @ [c]) @ rest))"
    using Cons.prems by simp_all
  show ?case
  proof (cases "overlaps (last res) c")
    case False
    from step_push [OF reg inv sub cU le False]
    have "resolved (sweep (res @ [c]) rest) ((ds @ [c]) @ rest)"
      using next_sub next_srt by (rule Cons.IH)
    with False test show ?thesis by simp
  next
    case True
    show ?thesis
    proof (cases "rankValue (last res) < rankValue c")
      case higher: True
      from step_replace [OF reg inv sub cU le True higher]
      have "resolved (sweep (butlast res @ [c]) rest) ((ds @ [c]) @ rest)"
        using next_sub next_srt by (rule Cons.IH)
      with True higher test outranks ne show ?thesis
        by (simp add: update_last [simplified])
    next
      case False
      from step_keep [OF reg inv sub cU le True False]
      have "resolved (sweep res rest) ((ds @ [c]) @ rest)"
        using next_sub next_srt by (rule Cons.IH)
      with True False test outranks show ?thesis by simp
    qed
  qed
qed

lemma removeOverlappingFindings_resolved:
  assumes reg: "regular (set fs)" and ne: "fs \<noteq> []"
  shows "resolved (removeOverlappingFindings fs) (array_sort byStart fs)"
proof -
  define s where "s = array_sort byStart fs"
  have set_s: "set s = set fs" unfolding s_def by (rule array_sort_byStart_set)
  have len: "length s = length fs" unfolding s_def by (rule array_sort_byStart_length)
  with ne obtain x xs where s: "s = x # xs" by (cases s) auto
  with set_s have xU: "x \<in> set fs" by auto
  have "wins [x] x x"
    using regular_refl [OF reg xU] unfolding wins_def
    by (auto intro!: exI [of _ "[]"])
  then have init: "resolved [x] [x]" by (simp add: resolved_def)
  have srt: "sorted (map getFindingStart ([x] @ xs))"
    using array_sort_byStart_sorted [of fs] s by (simp add: s_def)
  have sub: "set ([x] @ xs) \<subseteq> set fs" using set_s s by simp
  from sweep_resolved [OF reg init sub srt] have swept: "resolved (sweep [x] xs) s"
    using s by simp
  show ?thesis
  proof (cases "length fs \<le> 1")
    case True
    with len s have nil: "xs = []" by (cases xs) auto
    with s len obtain y where "fs = [y]" by (cases fs) auto
    with set_s s nil have "fs = [x]" by simp
    with swept nil s show ?thesis
      by (simp add: removeOverlappingFindings_def s_def)
  next
    case False
    with swept s show ?thesis
      by (simp add: removeOverlappingFindings_def s_def [symmetric])
  qed
qed

lemma apart_distinct:
  assumes "sorted_wrt apart res" and "\<forall>a\<in>set res. getFindingStart a < getFindingEnd a"
  shows "distinct res"
  using assms
proof (induction res)
  case Nil
  then show ?case by simp
next
  case (Cons a res)
  have "a \<notin> set res"
  proof
    assume "a \<in> set res"
    with Cons.prems(1) have "apart a a" by simp
    with Cons.prems(2) show False by (simp add: apart_def)
  qed
  with Cons show ?case by simp
qed

lemma filter_single:
  assumes "distinct xs" and "w \<in> set xs" and "P w" and "\<forall>u\<in>set xs. P u \<longrightarrow> u = w"
  shows "filter P xs = [w]"
proof -
  from assms(2) obtain ys zs where xs: "xs = ys @ w # zs"
    by (auto simp: in_set_conv_decomp)
  with assms(1) have "w \<notin> set ys" "w \<notin> set zs" by auto
  with assms(4) xs have "\<forall>u\<in>set ys. \<not> P u" "\<forall>u\<in>set zs. \<not> P u" by auto
  then have "filter P ys = []" "filter P zs = []"
    by (simp_all add: filter_empty_conv)
  with xs assms(3) show ?thesis by simp
qed

lemma cluster_class:
  assumes reg: "regular U" and K: "maximalCluster U K" and f: "f \<in> K" and g: "g \<in> U"
  shows "g \<in> K \<longleftrightarrow> overlaps f g"
proof
  assume "g \<in> K"
  show "overlaps f g"
  proof (cases "g = f")
    case True
    with reg g show ?thesis by (simp add: regular_refl)
  next
    case False
    with K f \<open>g \<in> K\<close> show ?thesis
      by (auto simp: maximalCluster_def mutuallyOverlapping_def)
  qed
next
  assume fg: "overlaps f g"
  from K have KU: "K \<subseteq> U" and mo: "mutuallyOverlapping K"
    by (simp_all add: maximalCluster_def)
  from KU f have fU: "f \<in> U" by auto
  have fb: "overlaps f b" if "b \<in> K" for b
  proof (cases "b = f")
    case True
    with reg fU show ?thesis by (simp add: regular_refl)
  next
    case False
    with mo f that show ?thesis by (simp add: mutuallyOverlapping_def)
  qed
  have gb: "overlaps g b" if "b \<in> K" for b
  proof -
    from that KU have "b \<in> U" by auto
    with reg g fU overlaps_sym [OF fg] fb [OF that] show ?thesis
      by (blast intro: regular_trans)
  qed
  show "g \<in> K"
  proof (rule ccontr)
    assume out: "g \<notin> K"
    have "mutuallyOverlapping (insert g K)"
      unfolding mutuallyOverlapping_def
    proof (intro ballI impI)
      fix a b assume "a \<in> insert g K" "b \<in> insert g K" "a \<noteq> b"
      then consider "a = g" "b \<in> K" | "a \<in> K" "b = g" | "a \<in> K" "b \<in> K"
        by auto
      then show "overlaps a b"
      proof cases
        case 1
        with gb show ?thesis by simp
      next
        case 2
        with gb show ?thesis by (simp add: overlaps_sym)
      next
        case 3
        with mo \<open>a \<noteq> b\<close> show ?thesis by (simp add: mutuallyOverlapping_def)
      qed
    qed
    with K g out show False by (simp add: maximalCluster_def)
  qed
qed

lemma resolved_cluster:
  assumes reg: "regular (set s)" and inv: "resolved out s"
    and srt: "sorted (map getFindingStart s)" and K: "maximalCluster (set s) K"
  shows "\<exists>w pre post.
      filter (\<lambda>g. g \<in> K) out = [w]
    \<and> (\<forall>g\<in>K. rankValue g \<le> rankValue w)
    \<and> filter (\<lambda>g. g \<in> K) s = pre @ w # post
    \<and> (\<forall>g\<in>set pre. rankValue g < rankValue w)
    \<and> (\<forall>g\<in>K. rankValue g = rankValue w \<longrightarrow> getFindingStart w \<le> getFindingStart g)"
proof -
  from K obtain f where f: "f \<in> K" and KU: "K \<subseteq> set s"
    by (auto simp: maximalCluster_def)
  then have fU: "f \<in> set s" by auto
  note member = cluster_class [OF reg K f]
  from inv have ap: "sorted_wrt apart out" and sub: "set out \<subseteq> set s"
    and win: "\<forall>g\<in>set s. \<exists>w\<in>set out. wins s w g"
    by (simp_all add: resolved_def)
  from win fU obtain w where w: "w \<in> set out" and wf: "wins s w f" by blast
  from wf obtain pre post where fw: "overlaps f w"
    and split: "filter (overlaps f) s = pre @ w # post"
    and low: "\<forall>x\<in>set pre. rankValue x < rankValue w"
    unfolding wins_def by blast
  from w sub have wU: "w \<in> set s" by auto
  with member fw have wK: "w \<in> K" by simp
  have only: "u = w" if "u \<in> set out" "u \<in> K" for u
  proof -
    from that sub have uU: "u \<in> set s" by auto
    with member that have "overlaps f u" by simp
    with reg fU uU wU fw have "overlaps u w"
      by (blast intro: regular_trans overlaps_sym)
    from apart_unique [OF ap that(1) w this] show ?thesis .
  qed
  from reg sub have "\<forall>a\<in>set out. getFindingStart a < getFindingEnd a"
    by (auto simp: regular_def)
  from apart_distinct [OF ap this] have "distinct out" .
  from filter_single [OF this w, of "\<lambda>g. g \<in> K"] wK only
  have one: "filter (\<lambda>g. g \<in> K) out = [w]" by blast
  have top: "rankValue g \<le> rankValue w" if "g \<in> K" for g
  proof -
    from that KU have gU: "g \<in> set s" by auto
    with win obtain v where v: "v \<in> set out" "wins s v g" by blast
    then have gv: "overlaps g v" and le: "rankValue g \<le> rankValue v"
      by (simp_all add: wins_def)
    from v sub have vU: "v \<in> set s" by auto
    from member gU that have "overlaps f g" by simp
    with reg fU gU vU gv have "overlaps f v"
      by (blast intro: regular_trans)
    with member vU have "v \<in> K" by simp
    from only [OF v(1) this] le show ?thesis by simp
  qed
  have "filter (\<lambda>g. g \<in> K) s = filter (overlaps f) s"
    using member by (intro filter_cong) simp_all
  with split have members: "filter (\<lambda>g. g \<in> K) s = pre @ w # post" by simp
  from srt have "sorted (map getFindingStart (filter (\<lambda>g. g \<in> K) s))"
    by (simp add: sorted_filter)
  with members have after: "\<forall>g\<in>set post. getFindingStart w \<le> getFindingStart g"
    by (simp add: sorted_append)
  have first: "getFindingStart w \<le> getFindingStart g"
    if "g \<in> K" "rankValue g = rankValue w" for g
  proof -
    from that KU have "g \<in> set (filter (\<lambda>g. g \<in> K) s)" by auto
    with members have "g \<in> set pre \<or> g = w \<or> g \<in> set post" by auto
    with low that(2) after show ?thesis by auto
  qed
  from one top members low first show ?thesis
    by (intro exI [of _ w] exI [of _ pre] exI [of _ post] conjI ballI impI) simp_all
qed

text \<open>
  C2 (as the code has it). Let every likelihood of the input be a name of the rank table,
  every span hold at least one byte, and overlapping be transitive on the input, so that its
  maximal clusters do not share findings. Then of every maximal cluster exactly one finding
  is in the output of \<open>removeOverlappingFindings\<close>; no finding of the cluster ranks above
  it; and in the order after the stable sort by start every finding of the cluster that
  stands before it ranks strictly below it, so that among the findings of its rank it is the
  first, and none of them starts earlier.
\<close>

theorem removeOverlappingFindings_clusters:
  assumes known: "\<forall>f\<in>set fs. rank f \<noteq> None"
    and spans: "\<forall>f\<in>set fs. getFindingStart f < getFindingEnd f"
    and trans: "\<forall>a\<in>set fs. \<forall>b\<in>set fs. \<forall>c\<in>set fs.
        overlaps a b \<and> overlaps b c \<longrightarrow> overlaps a c"
    and K: "maximalCluster (set fs) K"
  shows "\<exists>w pre post.
      filter (\<lambda>g. g \<in> K) (removeOverlappingFindings fs) = [w]
    \<and> (\<exists>r. rank w = Some r \<and> (\<forall>g\<in>K. \<exists>q. rank g = Some q \<and> q \<le> r))
    \<and> filter (\<lambda>g. g \<in> K) (array_sort byStart fs) = pre @ w # post
    \<and> (\<forall>g\<in>set pre. \<exists>q r. rank g = Some q \<and> rank w = Some r \<and> q < r)
    \<and> (\<forall>g\<in>K. rank g = rank w \<longrightarrow> getFindingStart w \<le> getFindingStart g)"
proof -
  let ?s = "array_sort byStart fs"
  have set_s: "set ?s = set fs" by (rule array_sort_byStart_set)
  from known spans trans have reg: "regular (set fs)"
    unfolding regular_def by blast
  from K have "K \<noteq> {}" "K \<subseteq> set fs" by (simp_all add: maximalCluster_def)
  then have ne: "fs \<noteq> []" and KU: "K \<subseteq> set fs" by auto
  have ranked: "rank g = Some (rankValue g)" if "g \<in> set fs" for g
    using known that by (auto simp: rankValue_def)
  from removeOverlappingFindings_resolved [OF reg ne]
  have inv: "resolved (removeOverlappingFindings fs) ?s" .
  from reg set_s have reg_s: "regular (set ?s)" by simp
  from K set_s have K_s: "maximalCluster (set ?s) K" by simp
  from resolved_cluster [OF reg_s inv array_sort_byStart_sorted K_s]
  obtain w pre post where one: "filter (\<lambda>g. g \<in> K) (removeOverlappingFindings fs) = [w]"
    and top: "\<forall>g\<in>K. rankValue g \<le> rankValue w"
    and members: "filter (\<lambda>g. g \<in> K) ?s = pre @ w # post"
    and low: "\<forall>g\<in>set pre. rankValue g < rankValue w"
    and first: "\<forall>g\<in>K. rankValue g = rankValue w \<longrightarrow> getFindingStart w \<le> getFindingStart g"
    by (elim exE conjE)
  have "set (filter (\<lambda>g. g \<in> K) ?s) \<subseteq> K" by auto
  with members have "set (pre @ w # post) \<subseteq> K" by simp
  with KU have wU: "w \<in> set fs" and preU: "set pre \<subseteq> set fs" by auto
  have c1: "\<exists>r. rank w = Some r \<and> (\<forall>g\<in>K. \<exists>q. rank g = Some q \<and> q \<le> r)"
    using ranked [OF wU] ranked top KU by (intro exI [of _ "rankValue w"]) auto
  have c2: "\<forall>g\<in>set pre. \<exists>q r. rank g = Some q \<and> rank w = Some r \<and> q < r"
    using ranked [OF wU] ranked low preU by auto
  have c3: "\<forall>g\<in>K. rank g = rank w \<longrightarrow> getFindingStart w \<le> getFindingStart g"
    using first ranked [OF wU] ranked KU by (auto simp: subset_iff)
  from one c1 members c2 c3 show ?thesis
    by (intro exI [of _ w] exI [of _ pre] exI [of _ post] conjI)
qed


lemma two_regions:
  "removeOverlappingFindings [person_name, first_name, likely_email] = [likely_email, first_name]"
  by (simp add: removeOverlappingFindings_def array_sort_def byStart_def getFindingStart_def
      getFindingEnd_def person_name_def first_name_def likely_email_def js_gt_def
      likelihoodPriority_def js_get_def)

theorem removeOverlappingFindings_clusters_witness:
  "maximalCluster (set [person_name, first_name, likely_email]) {person_name, first_name}
   \<and> filter (\<lambda>g. g \<in> {person_name, first_name})
        (removeOverlappingFindings [person_name, first_name, likely_email]) = [first_name]
   \<and> rank first_name = Some 5 \<and> rank person_name = Some 4
   \<and> filter (\<lambda>g. g \<in> {person_name, first_name})
        (array_sort byStart [person_name, first_name, likely_email])
      = [person_name] @ first_name # []"
proof -
  let ?fs = "[person_name, first_name, likely_email]"
  let ?K = "{person_name, first_name}"
  have known: "\<forall>f\<in>set ?fs. rank f \<noteq> None"
    by (simp add: rank_def likelihoodPriority_def js_get_def person_name_def first_name_def
        likely_email_def)
  have spans: "\<forall>f\<in>set ?fs. getFindingStart f < getFindingEnd f"
    by (simp add: getFindingStart_def getFindingEnd_def person_name_def first_name_def
        likely_email_def)
  have trans: "\<forall>a\<in>set ?fs. \<forall>b\<in>set ?fs. \<forall>c\<in>set ?fs.
      overlaps a b \<and> overlaps b c \<longrightarrow> overlaps a c"
    by (simp add: overlaps_def getFindingStart_def getFindingEnd_def person_name_def
        first_name_def likely_email_def)
  have K: "maximalCluster (set ?fs) ?K"
    by (simp add: maximalCluster_def mutuallyOverlapping_def overlaps_def getFindingStart_def
        getFindingEnd_def person_name_def first_name_def likely_email_def)
  from removeOverlappingFindings_clusters [OF known spans trans K]
  obtain w pre post where one: "filter (\<lambda>g. g \<in> ?K) (removeOverlappingFindings ?fs) = [w]"
    and members: "filter (\<lambda>g. g \<in> ?K) (array_sort byStart ?fs) = pre @ w # post"
    by blast
  have "filter (\<lambda>g. g \<in> ?K) [likely_email, first_name] = [first_name]"
    by (simp add: person_name_def first_name_def likely_email_def)
  with one have w: "w = first_name" by (simp add: two_regions)
  have "filter (\<lambda>g. g \<in> ?K) (array_sort byStart ?fs) = [person_name, first_name]"
    by (simp add: array_sort_def byStart_def getFindingStart_def
        person_name_def first_name_def likely_email_def)
  with members w have sorted_members: "filter (\<lambda>g. g \<in> ?K) (array_sort byStart ?fs)
      = [person_name] @ first_name # []"
    by simp
  have ranks: "rank first_name = Some 5" "rank person_name = Some 4"
    by (simp_all add: rank_def likelihoodPriority_def js_get_def person_name_def first_name_def)
  from K one w sorted_members ranks show ?thesis by simp
qed


text \<open>
  C2 as the specification states it fails on its own example. The findings at 11-17 and
  15-17 form a maximal cluster (the one at 11-15 does not reach the second); the sweep
  replaces the first by the higher ranked finding at 11-15, which ends where the third
  starts, so the third is kept: the survivor of the cluster has rank 3, its maximum is 4.
\<close>

theorem removeOverlappingFindings_chain_counterexample:
  "maximalCluster (set [person_name, first_name, last_name]) {person_name, last_name}
   \<and> filter (\<lambda>g. g \<in> {person_name, last_name})
        (removeOverlappingFindings [person_name, first_name, last_name]) = [last_name]
   \<and> rank last_name = Some 3 \<and> rank person_name = Some 4"
proof -
  have "maximalCluster (set [person_name, first_name, last_name]) {person_name, last_name}"
    by (simp add: maximalCluster_def mutuallyOverlapping_def overlaps_def getFindingStart_def
        getFindingEnd_def person_name_def first_name_def last_name_def)
  moreover have "removeOverlappingFindings [person_name, first_name, last_name]
      = [first_name, last_name]"
    by (simp add: removeOverlappingFindings_def array_sort_def byStart_def getFindingStart_def
        getFindingEnd_def person_name_def first_name_def last_name_def js_gt_def
        likelihoodPriority_def js_get_def)
  moreover have "filter (\<lambda>g. g \<in> {person_name, last_name}) [first_name, last_name] = [last_name]"
    by (simp add: person_name_def first_name_def last_name_def)
  moreover have "rank last_name = Some 3" "rank person_name = Some 4"
    by (simp_all add: rank_def likelihoodPriority_def js_get_def person_name_def last_name_def)
  ultimately show ?thesis by simp
qed

section \<open>The filter predicate\<close>

lemma filterFindings_Some:
  "filterFindings (Some p) fs = Inr (filter (\<lambda>a. keepFinding (Some p) a = Inr True) fs)"
  by (induction fs) (auto simp: keepFinding_def)

lemma filterFindings_None: "fs \<noteq> [] \<Longrightarrow> filterFindings None fs = Inl TypeError"
  by (cases fs) (simp_all add: keepFinding_def)

text \<open>
  C3. A policy object without any property of its own drops a finding of the custom info
  type \<open>constructor\<close>: the read of the policy at that name yields the function every
  object inherits under it, which is neither at most the rank of the finding nor falsy.
  The claim has the finding kept, since the policy holds no entry for its category.
\<close>

theorem inherited_member_drops_finding:
  "dom (Map.empty :: policy) = {}
   \<and> js_get Map.empty (infoType_name constructor_finding)
        = Inherited ''function Object() { [native code] }''
   \<and> js_get likelihoodPriority (likelihood constructor_finding) = Number 4
   \<and> keepFinding (Some Map.empty) constructor_finding = Inr False
   \<and> redactAsync default_env no_opts (\<lambda>t. Inr [constructor_finding]) ''My name is John D.''
        (Some Map.empty)
      = Some (Inr \<lparr>config_infoTypes = [], metrics_findingsCap = 0, metrics_maxFindings = 1,
           output_text = ''My name is John D.'', findings = []\<rparr>)"
  by (simp add: keepFinding_def js_get_def objectPrototype_def likelihoodPriority_def
      constructor_finding_def js_le_def js_not_def redactAsync_def redactAsync_run_def
      doRedactAsync_def maxContentSize_def no_opts_def default_env_def
      getInspectConfig_names_def)

text \<open>
  The filter away from inherited names. For a finding whose info type is not named like a
  member every object inherits, and whose likelihood is a name of the table with a rank
  that is not negative (the six names other than the sentinel), the filter keeps the
  finding exactly when the policy has no entry for its info type or the entry is at most
  the rank.
  \<^verbatim>\<open>findings.filter\<close> keeps the findings of which that holds, in their order.
\<close>

theorem keepFinding_own_entries:
  assumes "\<forall>a\<in>set fs. map_of objectPrototype (infoType_name a) = None
             \<and> (\<exists>r. rank a = Some r \<and> 0 \<le> r)"
  shows "(\<forall>a\<in>set fs. keepFinding (Some p) a =
            Inr (p (infoType_name a) = None
               \<or> (\<exists>m r. p (infoType_name a) = Some m \<and> rank a = Some r \<and> m \<le> r)))
     \<and> filterFindings (Some p) fs =
         Inr (filter (\<lambda>a. p (infoType_name a) = None
               \<or> (\<exists>m r. p (infoType_name a) = Some m \<and> rank a = Some r \<and> m \<le> r)) fs)"
proof -
  have one: "keepFinding (Some p) a =
            Inr (p (infoType_name a) = None
               \<or> (\<exists>m r. p (infoType_name a) = Some m \<and> rank a = Some r \<and> m \<le> r))"
    if "a \<in> set fs" for a
  proof -
    from assms that obtain r where proto: "map_of objectPrototype (infoType_name a) = None"
      and r: "likelihoodPriority (likelihood a) = Some r" "0 \<le> r"
      by (auto simp: rank_def)
    show ?thesis
    proof (cases "p (infoType_name a)")
      case None
      with proto show ?thesis
        by (simp add: keepFinding_def js_get_def js_not_def)
    next
      case (Some m)
      with r show ?thesis
        by (auto simp: keepFinding_def js_get_def js_le_def js_not_def rank_def)
    qed
  qed
  have "filterFindings (Some p) fs
      = Inr (filter (\<lambda>a. keepFinding (Some p) a = Inr True) fs)"
    by (rule filterFindings_Some)
  also have "filter (\<lambda>a. keepFinding (Some p) a = Inr True) fs
      = filter (\<lambda>a. p (infoType_name a) = None
               \<or> (\<exists>m r. p (infoType_name a) = Some m \<and> rank a = Some r \<and> m \<le> r)) fs"
    by (rule filter_cong) (simp_all add: one)
  finally show ?thesis
    using one by simp
qed

theorem keepFinding_own_entries_witness:
  "map_of objectPrototype (infoType_name likely_email) = None
   \<and> map_of objectPrototype (infoType_name last_name) = None
   \<and> rank likely_email = Some 4 \<and> rank last_name = Some 3
   \<and> keepFinding (Some email_likely) likely_email = Inr True
   \<and> keepFinding (Some [''LAST_NAME'' \<mapsto> 4]) last_name = Inr False
   \<and> filterFindings (Some [''LAST_NAME'' \<mapsto> 4]) [likely_email, last_name]
        = Inr [likely_email]"
proof -
  have hyps: "\<forall>a\<in>set [likely_email, last_name].
      map_of objectPrototype (infoType_name a) = None \<and> (\<exists>r. rank a = Some r \<and> 0 \<le> r)"
    by (simp add: objectPrototype_def likely_email_def last_name_def rank_def
        likelihoodPriority_def)
  have facts: "map_of objectPrototype (infoType_name likely_email) = None"
    "map_of objectPrototype (infoType_name last_name) = None"
    "rank likely_email = Some 4" "rank last_name = Some 3"
    by (simp_all add: objectPrototype_def likely_email_def last_name_def rank_def
        likelihoodPriority_def)
  from keepFinding_own_entries [OF hyps, of email_likely]
  have "keepFinding (Some email_likely) likely_email = Inr True"
    by (simp add: email_likely_def likely_email_def rank_def likelihoodPriority_def)
  moreover from keepFinding_own_entries [OF hyps, of "[''LAST_NAME'' \<mapsto> 4]"]
  have "keepFinding (Some [''LAST_NAME'' \<mapsto> 4]) last_name = Inr False"
    and "filterFindings (Some [''LAST_NAME'' \<mapsto> 4]) [likely_email, last_name]
        = Inr [likely_email]"
    by (simp_all add: likely_email_def last_name_def rank_def likelihoodPriority_def)
  ultimately show ?thesis
    using facts by simp
qed

text \<open>
  C5. Redaction without a filter argument fails as soon as the engine reports a finding:
  the callback reads a property of \<^verbatim>\<open>undefined\<close>. The claim asks for every finding
  to be kept.
\<close>

theorem missing_filter_throws:
  "doRedactAsync no_opts (\<lambda>t. Inr [person_name]) ''My name is John D.'' None False
     = Inl TypeError
   \<and> redactAsync default_env no_opts (\<lambda>t. Inr [person_name]) ''My name is John D.'' None
     = Some (Inl TypeError)
   \<and> doInspectStructured no_opts (\<lambda>hs rs. Inr (Some [person_name])) [''name'']
       [[''John D.'']] None
     = Inl TypeError"
  by (simp add: doRedactAsync_def redactAsync_def redactAsync_run_def keepFinding_def
      doInspectStructured_def maxContentSize_def no_opts_def default_env_def)

section \<open>What a call returns as its findings\<close>

text \<open>
  C6 (as the code has it). The findings of the result of \<^verbatim>\<open>doRedactAsync\<close> are the
  findings of the engine that pass the filter, all of them: the output of the resolver is
  used for the substitution only. Without \<^verbatim>\<open>replaceText\<close>, as \<^verbatim>\<open>redactAsync\<close> calls
  it, they stand in the engine's order; with it, two or more are sorted by their start.
\<close>

theorem doRedactAsync_findings:
  assumes "doRedactAsync opts engine t flt replaceText = Inr out"
  shows "\<exists>raw. engine t = Inr raw
     \<and> findings out =
        (let kept = filter (\<lambda>a. keepFinding flt a = Inr True) raw
         in if replaceText \<and> 1 < length kept then array_sort byStart kept else kept)"
proof (cases "engine t")
  case (Inl e)
  with assms show ?thesis by (simp add: doRedactAsync_def)
next
  case (Inr raw)
  show ?thesis
  proof (cases flt)
    case None
    with assms Inr have "raw = []"
      by (cases raw) (simp_all add: doRedactAsync_def keepFinding_def)
    with assms Inr show ?thesis
      by (auto simp: doRedactAsync_def)
  next
    case (Some p)
    with assms Inr show ?thesis
      by (cases raw) (auto simp: doRedactAsync_def filterFindings_Some Let_def not_less
           simp del: filterFindings.simps split: if_splits)
  qed
qed

theorem doRedactAsync_findings_witness:
  "doRedactAsync no_opts (\<lambda>t. Inr [certain_email, person_name]) ''a@b.org John D.''
     (Some email_likely) False
   = Inr \<lparr>config_infoTypes = [], metrics_findingsCap = 0, metrics_maxFindings = 2,
        output_text = ''a@b.org John D.'', findings = [person_name]\<rparr>
   \<and> [person_name]
     = filter (\<lambda>a. keepFinding (Some email_likely) a = Inr True) [certain_email, person_name]"
proof -
  have run: "doRedactAsync no_opts (\<lambda>t. Inr [certain_email, person_name]) ''a@b.org John D.''
     (Some email_likely) False
   = Inr \<lparr>config_infoTypes = [], metrics_findingsCap = 0, metrics_maxFindings = 2,
        output_text = ''a@b.org John D.'', findings = [person_name]\<rparr>"
    by (simp add: doRedactAsync_def keepFinding_def no_opts_def js_le_def js_not_def
        getInspectConfig_names_def email_likely_def certain_email_def person_name_def
        likelihoodPriority_def js_get_def objectPrototype_def)
  from doRedactAsync_findings [OF run] run show ?thesis
    by simp
qed

text \<open>
  C6 as the specification states it fails: \<^verbatim>\<open>redactAsync\<close> returns the three findings
  of the example, of which the first two overlap.
\<close>

theorem redactAsync_overlap_counterexample:
  "redactAsync default_env no_opts (\<lambda>t. Inr [person_name, first_name, last_name])
     ''My name is John D.'' (Some Map.empty)
   = Some (Inr \<lparr>config_infoTypes = [], metrics_findingsCap = 0, metrics_maxFindings = 3,
        output_text = ''My name is John D.'',
        findings = [person_name, first_name, last_name]\<rparr>)
   \<and> overlaps person_name first_name"
  by (simp add: redactAsync_def redactAsync_run_def doRedactAsync_def keepFinding_def
      maxContentSize_def no_opts_def default_env_def js_le_def js_not_def
      getInspectConfig_names_def overlaps_def getFindingStart_def getFindingEnd_def
      person_name_def first_name_def last_name_def js_get_def objectPrototype_def)

section \<open>The rank table and names it does not hold\<close>

lemma dom_likelihoodPriority:
  "dom likelihoodPriority =
     {''EXCLUDE'', ''LIKELIHOOD_UNSPECIFIED'', ''VERY_UNLIKELY'', ''UNLIKELY'', ''POSSIBLE'',
      ''LIKELY'', ''VERY_LIKELY''}"
  by (auto simp: likelihoodPriority_def dom_def split: if_splits)

text \<open>
  C9 (as the code has it). The table gives \<open>EXCLUDE\<close>, \<open>LIKELIHOOD_UNSPECIFIED\<close>,
  \<open>VERY_UNLIKELY\<close>, \<open>UNLIKELY\<close>, \<open>POSSIBLE\<close>, \<open>LIKELY\<close> and \<open>VERY_LIKELY\<close> the
  ranks -1, 0, 1, 2, 3, 4 and 5: distinct, \<open>EXCLUDE\<close> the lowest. Its read at any other
  name is no number: it is \<^verbatim>\<open>undefined\<close>, unless the name is that of a member every
  object inherits, and then it is that member. Nothing fails on a finding of such a
  likelihood. The filter drops it when the policy holds an entry other than 0 for its info
  type, and keeps it when the read of the policy there is \<^verbatim>\<open>undefined\<close> or 0. Where the
  read of the table is \<^verbatim>\<open>undefined\<close>, every comparison with it is false: the filter keeps
  the finding exactly when the read of the policy is \<^verbatim>\<open>undefined\<close> or 0, and in the sweep it
  neither replaces the finding it overlaps nor is replaced by one that overlaps it.
\<close>

theorem likelihoodPriority_table:
  "likelihoodPriority ''EXCLUDE'' = Some (- 1)
   \<and> likelihoodPriority ''LIKELIHOOD_UNSPECIFIED'' = Some 0
   \<and> likelihoodPriority ''VERY_UNLIKELY'' = Some 1
   \<and> likelihoodPriority ''UNLIKELY'' = Some 2
   \<and> likelihoodPriority ''POSSIBLE'' = Some 3
   \<and> likelihoodPriority ''LIKELY'' = Some 4
   \<and> likelihoodPriority ''VERY_LIKELY'' = Some 5
   \<and> dom likelihoodPriority =
     {''EXCLUDE'', ''LIKELIHOOD_UNSPECIFIED'', ''VERY_UNLIKELY'', ''UNLIKELY'', ''POSSIBLE'',
      ''LIKELY'', ''VERY_LIKELY''}
   \<and> inj_on likelihoodPriority (dom likelihoodPriority)
   \<and> (\<forall>n\<in>dom likelihoodPriority. n \<noteq> ''EXCLUDE'' \<longrightarrow>
        the (likelihoodPriority ''EXCLUDE'') < the (likelihoodPriority n))
   \<and> (likelihoodPriority (likelihood f) = None \<longrightarrow>
        (\<forall>v. js_get likelihoodPriority (likelihood f) \<noteq> Number v)
      \<and> (js_get likelihoodPriority (likelihood f) = Undefined
           \<longleftrightarrow> map_of objectPrototype (likelihood f) = None)
      \<and> (\<forall>m. p (infoType_name f) = Some m \<and> m \<noteq> 0 \<longrightarrow>
             keepFinding (Some p) f = Inr False)
      \<and> (js_get p (infoType_name f) = Undefined \<or> js_get p (infoType_name f) = Number 0 \<longrightarrow>
             keepFinding (Some p) f = Inr True))
   \<and> (js_get likelihoodPriority (likelihood f) = Undefined \<longrightarrow>
        keepFinding (Some p) f
          = Inr (js_get p (infoType_name f) = Undefined \<or> js_get p (infoType_name f) = Number 0)
        \<and> (getFindingStart f < getFindingEnd (last rs) \<longrightarrow>
             sweep rs (f # rest) = sweep rs rest)
        \<and> (getFindingStart c < getFindingEnd f \<longrightarrow>
             sweep (rs @ [f]) (c # rest) = sweep (rs @ [f]) rest))"
proof -
  have entries: "likelihoodPriority ''EXCLUDE'' = Some (- 1)"
    "likelihoodPriority ''LIKELIHOOD_UNSPECIFIED'' = Some 0"
    "likelihoodPriority ''VERY_UNLIKELY'' = Some 1"
    "likelihoodPriority ''UNLIKELY'' = Some 2"
    "likelihoodPriority ''POSSIBLE'' = Some 3"
    "likelihoodPriority ''LIKELY'' = Some 4"
    "likelihoodPriority ''VERY_LIKELY'' = Some 5"
    by (simp_all add: likelihoodPriority_def)
  have inj: "inj_on likelihoodPriority (dom likelihoodPriority)"
    unfolding dom_likelihoodPriority by (simp add: likelihoodPriority_def)
  have lowest: "\<forall>n\<in>dom likelihoodPriority. n \<noteq> ''EXCLUDE'' \<longrightarrow>
      the (likelihoodPriority ''EXCLUDE'') < the (likelihoodPriority n)"
    unfolding dom_likelihoodPriority by (simp add: likelihoodPriority_def)
  have unknown: "(\<forall>v. js_get likelihoodPriority (likelihood f) \<noteq> Number v)
      \<and> (js_get likelihoodPriority (likelihood f) = Undefined
           \<longleftrightarrow> map_of objectPrototype (likelihood f) = None)
      \<and> (\<forall>m. p (infoType_name f) = Some m \<and> m \<noteq> 0 \<longrightarrow>
             keepFinding (Some p) f = Inr False)
      \<and> (js_get p (infoType_name f) = Undefined \<or> js_get p (infoType_name f) = Number 0 \<longrightarrow>
             keepFinding (Some p) f = Inr True)"
    if "likelihoodPriority (likelihood f) = None"
    using that
    by (auto simp: js_get_def keepFinding_def js_le_def js_not_def split: option.splits)
  have undefined_read: "keepFinding (Some p) f
          = Inr (js_get p (infoType_name f) = Undefined \<or> js_get p (infoType_name f) = Number 0)
        \<and> (getFindingStart f < getFindingEnd (last rs) \<longrightarrow>
             sweep rs (f # rest) = sweep rs rest)
        \<and> (getFindingStart c < getFindingEnd f \<longrightarrow>
             sweep (rs @ [f]) (c # rest) = sweep (rs @ [f]) rest)"
    if "js_get likelihoodPriority (likelihood f) = Undefined"
    using that
    by (auto simp: keepFinding_def js_le_def js_not_def js_gt_def split: js_value.splits)
  from entries dom_likelihoodPriority inj lowest unknown undefined_read show ?thesis
    by (intro conjI impI) blast+
qed

theorem likelihoodPriority_table_witness:
  "likelihoodPriority (likelihood certain_email) = None
   \<and> js_get likelihoodPriority (likelihood certain_email) = Undefined
   \<and> ''LIKELY'' \<in> dom likelihoodPriority
   \<and> the (likelihoodPriority ''EXCLUDE'') < the (likelihoodPriority ''LIKELY'')
   \<and> email_likely (infoType_name certain_email) = Some 4
   \<and> keepFinding (Some email_likely) certain_email = Inr False
   \<and> js_get Map.empty (infoType_name certain_email) = Undefined
   \<and> keepFinding (Some Map.empty) certain_email = Inr True
   \<and> getFindingStart certain_email < getFindingEnd (last [likely_email])
   \<and> sweep [likely_email] [certain_email] = [likely_email]
   \<and> getFindingStart likely_email < getFindingEnd certain_email
   \<and> sweep ([] @ [certain_email]) [likely_email] = [certain_email]"
  using likelihoodPriority_table
    [of certain_email email_likely "[likely_email]" "[]" likely_email]
    likelihoodPriority_table [of certain_email email_likely "[]" "[]" likely_email]
    likelihoodPriority_table [of certain_email Map.empty "[]" "[]" likely_email]
  by (simp add: certain_email_def likely_email_def email_likely_def likelihoodPriority_def
      js_get_def objectPrototype_def getFindingStart_def getFindingEnd_def)

text \<open>
  C9 as the specification states it fails: a finding whose likelihood is not a name of the
  table is processed without any failure. The resolver keeps it in front of an overlapping
  finding that is \<open>LIKELY\<close>, and a call returns it among its findings.
\<close>

theorem unknown_likelihood_counterexample:
  "likelihoodPriority (likelihood certain_email) = None
   \<and> js_get likelihoodPriority (likelihood certain_email) = Undefined
   \<and> removeOverlappingFindings [certain_email, likely_email] = [certain_email]
   \<and> doRedactAsync no_opts (\<lambda>t. Inr [certain_email]) ''a@b.org'' (Some email_floor) False
     = Inr \<lparr>config_infoTypes = [], metrics_findingsCap = 0, metrics_maxFindings = 1,
          output_text = ''a@b.org'', findings = [certain_email]\<rparr>"
  by (simp add: removeOverlappingFindings_def array_sort_def byStart_def getFindingStart_def
      getFindingEnd_def certain_email_def likely_email_def js_gt_def likelihoodPriority_def
      js_get_def objectPrototype_def doRedactAsync_def keepFinding_def no_opts_def js_le_def
      js_not_def email_floor_def getInspectConfig_names_def)

section \<open>The batching loop\<close>

text \<open>
  A rule for the loop in the style of Hoare logic: an invariant \<open>I\<close> of the loop state
  that the two ways through the body keep, and a postcondition \<open>Q\<close> that holds where the
  run leaves the loop, normally or with a rejected wave. It speaks of runs that return;
  that a run returns when the batch size is positive is the lemma after it.
\<close>

lemma batchLoop_rule:
  assumes run: "batchLoop slice call n S maxp ps0 start0 rs0 tr0 = Some r"
    and init: "I ps0 start0 rs0 tr0"
    and push: "\<And>ps start rs tr. I ps start rs tr \<Longrightarrow> start < n \<Longrightarrow>
        \<not> maxp \<le> int (length ps) + 1 \<Longrightarrow>
        I (ps @ [call (slice start (start + S))]) (start + S) rs
          (tr @ [Call (slice start (start + S))])"
    and wave: "\<And>ps start rs tr vs. I ps start rs tr \<Longrightarrow> start < n \<Longrightarrow>
        maxp \<le> int (length ps) + 1 \<Longrightarrow>
        promise_all (ps @ [call (slice start (start + S))]) = Inr vs \<Longrightarrow>
        I [] (start + S) (rs @ vs) (tr @ [Call (slice start (start + S)), AwaitAll])"
    and reject: "\<And>ps start rs tr e. I ps start rs tr \<Longrightarrow> start < n \<Longrightarrow>
        maxp \<le> int (length ps) + 1 \<Longrightarrow>
        promise_all (ps @ [call (slice start (start + S))]) = Inl e \<Longrightarrow>
        Q (Inl e, tr @ [Call (slice start (start + S)), AwaitAll])"
    and finish: "\<And>ps start rs tr vs. I ps start rs tr \<Longrightarrow> \<not> start < n \<Longrightarrow>
        promise_all ps = Inr vs \<Longrightarrow> Q (Inr (rs @ vs), tr @ [AwaitAll])"
    and finish_reject: "\<And>ps start rs tr e. I ps start rs tr \<Longrightarrow> \<not> start < n \<Longrightarrow>
        promise_all ps = Inl e \<Longrightarrow> Q (Inl e, tr @ [AwaitAll])"
  shows "Q r"
proof -
  define P where "P = (\<lambda>sl ca n' S' mp ps start rs tr y.
    sl = slice \<and> ca = call \<and> n' = n \<and> S' = S \<and> mp = maxp \<and> I ps start rs tr \<longrightarrow> Q y)"
  have "P slice call n S maxp ps0 start0 rs0 tr0 r"
  proof (rule batchLoop.raw_induct [OF _ run], goal_cases)
    case (1 f sl ca n' S' mp ps start rs tr y)
    show ?case
      unfolding P_def
    proof (intro impI, elim conjE)
      assume eqs: "sl = slice" "ca = call" "n' = n" "S' = S" "mp = maxp"
        and inv: "I ps start rs tr"
      note body = 1(2) [unfolded eqs]
      note IH = 1(1) [unfolded P_def eqs]
      show "Q y"
      proof (cases "start < n")
        case True
        show ?thesis
        proof (cases "maxp \<le> int (length ps) + 1")
          case full: True
          show ?thesis
          proof (cases "promise_all (ps @ [call (slice start (start + S))])")
            case (Inl e)
            with body True full have "y = (Inl e, tr @ [Call (slice start (start + S)), AwaitAll])"
              by (simp add: Let_def)
            with reject [OF inv True full Inl] show ?thesis by simp
          next
            case (Inr vs)
            with body True full
            have "f slice call n S maxp [] (start + S) (rs @ vs)
                (tr @ [Call (slice start (start + S)), AwaitAll]) = Some y"
              by (simp add: Let_def)
            from IH [OF this] wave [OF inv True full Inr] show ?thesis by simp
          qed
        next
          case False
          with body True
          have "f slice call n S maxp (ps @ [call (slice start (start + S))]) (start + S) rs
                (tr @ [Call (slice start (start + S))]) = Some y"
            by (simp add: Let_def)
          from IH [OF this] push [OF inv True False] show ?thesis by simp
        qed
      next
        case False
        show ?thesis
        proof (cases "promise_all ps")
          case (Inl e)
          with body False have "y = (Inl e, tr @ [AwaitAll])" by simp
          with finish_reject [OF inv False Inl] show ?thesis by simp
        next
          case (Inr vs)
          with body False have "y = (Inr (rs @ vs), tr @ [AwaitAll])" by simp
          with finish [OF inv False Inr] show ?thesis by simp
        qed
      qed
    qed
  qed
  with init show ?thesis
    by (simp add: P_def)
qed

lemma batchLoop_terminates:
  assumes "0 < S"
  shows "\<exists>r. batchLoop slice call n S maxp ps start rs tr = Some r"
proof (induction "nat \<lceil>(n - start) / S\<rceil>" arbitrary: ps start rs tr rule: less_induct)
  case less
  show ?case
  proof (cases "start < n")
    case True
    from assms have "(n - (start + S)) / S = (n - start) / S - 1"
      by (simp add: field_simps)
    moreover from True assms have "0 < \<lceil>(n - start) / S\<rceil>"
      by (simp add: zero_less_ceiling)
    ultimately have dec: "nat \<lceil>(n - (start + S)) / S\<rceil> < nat \<lceil>(n - start) / S\<rceil>"
      by simp
    show ?thesis
    proof (cases "maxp \<le> int (length ps) + 1")
      case full: True
      show ?thesis
      proof (cases "promise_all (ps @ [call (slice start (start + S))])")
        case (Inl e)
        with True full show ?thesis
          by (subst batchLoop.simps) (simp add: Let_def)
      next
        case (Inr vs)
        from less [OF dec] obtain r where
          "batchLoop slice call n S maxp [] (start + S) (rs @ vs)
             (tr @ [Call (slice start (start + S)), AwaitAll]) = Some r"
          by blast
        with True full Inr show ?thesis
          by (subst batchLoop.simps) (simp add: Let_def)
      qed
    next
      case False
      from less [OF dec] obtain r where
        "batchLoop slice call n S maxp (ps @ [call (slice start (start + S))]) (start + S) rs
           (tr @ [Call (slice start (start + S))]) = Some r"
        by blast
      with True False show ?thesis
        by (subst batchLoop.simps) (simp add: Let_def)
    qed
  next
    case False
    then show ?thesis
      by (subst batchLoop.simps) (simp split: sum.split)
  qed
qed

lemma calls_simps [simp]:
  "calls [] = []"
  "calls (tr @ [Call b]) = calls tr @ [b]"
  "calls (tr @ [AwaitAll]) = calls tr"
  "calls (tr @ [Call b, AwaitAll]) = calls tr @ [b]"
  by (simp_all add: calls_def)

lemma promise_all_map_Inr: "promise_all (map Inr vs) = Inr vs"
  by (induction vs) simp_all

lemma promise_all_Inr:
  assumes "promise_all ps = Inr vs"
  shows "ps = map Inr vs"
  using assms
proof (induction ps arbitrary: vs)
  case Nil
  then show ?case by simp
next
  case (Cons p ps)
  from Cons.prems obtain v where p: "p = Inr v"
    by (cases p) simp_all
  with Cons.prems obtain vs' where tl: "promise_all ps = Inr vs'"
    by (cases "promise_all ps") simp_all
  with Cons.prems p have "vs = v # vs'" by simp
  with Cons.IH [OF tl] p show ?case by simp
qed

lemma js_toInteger_nonneg: "0 \<le> x \<Longrightarrow> js_toInteger x = \<lfloor>x\<rfloor>"
  by (simp add: js_toInteger_def)

lemma js_substring_chunk:
  assumes "0 \<le> start" and "0 < S"
  shows "js_substring t start (start + S)
     = take (nat \<lfloor>start + S\<rfloor> - nat \<lfloor>start\<rfloor>) (drop (nat \<lfloor>start\<rfloor>) t)"
proof -
  define len where "len = int (length t)"
  define A where "A = \<lfloor>start\<rfloor>"
  define B where "B = \<lfloor>start + S\<rfloor>"
  from assms have A: "0 \<le> A" and AB: "A \<le> B"
    by (simp_all add: A_def B_def floor_mono)
  from assms have ints: "js_toInteger start = A" "js_toInteger (start + S) = B"
    by (simp_all add: js_toInteger_nonneg A_def B_def)
  have width: "nat (B - A) = nat B - nat A"
    using A AB by (simp add: nat_diff_distrib)
  consider "len \<le> A" | "A < len" "B \<le> len" | "A < len" "len < B"
    by linarith
  then have "js_substring t start (start + S) = take (nat B - nat A) (drop (nat A) t)"
  proof cases
    case 1
    with A AB have "js_substring t start (start + S) = []"
      by (simp add: js_substring_def ints Let_def len_def [symmetric] min_def max_def)
    moreover from 1 A have "drop (nat A) t = []"
      by (simp add: len_def)
    ultimately show ?thesis by simp
  next
    case 2
    with A AB have "js_substring t start (start + S) = take (nat (B - A)) (drop (nat A) t)"
      by (simp add: js_substring_def ints Let_def len_def [symmetric] min_def max_def)
    with width show ?thesis by simp
  next
    case 3
    with A AB have "js_substring t start (start + S)
        = take (nat (len - A)) (drop (nat A) t)"
      by (simp add: js_substring_def ints Let_def len_def [symmetric] min_def max_def)
    moreover from 3 A have "length (drop (nat A) t) \<le> nat (len - A)"
      and "length (drop (nat A) t) \<le> nat B - nat A"
      by (simp_all add: len_def)
    ultimately show ?thesis by simp
  qed
  then show ?thesis
    by (simp add: A_def B_def)
qed

lemma sliceStart_0 [simp]: "sliceStart S 0 = 0"
  by (simp add: sliceStart_def)

lemma sliceStart_mono: "0 \<le> S \<Longrightarrow> sliceStart S k \<le> sliceStart S (Suc k)"
  unfolding sliceStart_def
  by (intro nat_mono floor_mono mult_right_mono) simp_all

lemma sliceStart_of_nat [simp]: "sliceStart (of_nat n) k = k * n"
proof -
  have "(of_nat k :: rat) * of_nat n = of_nat (k * n)" by simp
  then show ?thesis
    unfolding sliceStart_def by (simp only: floor_of_nat nat_int)
qed

lemma sliceStart_int:
  assumes "0 \<le> S"
  shows "int (sliceStart S k) = \<lfloor>of_nat k * S\<rfloor>"
  using assms by (simp add: sliceStart_def)

lemma sliceStart_width:
  assumes "0 \<le> S"
  shows "\<lfloor>S\<rfloor> \<le> int (sliceStart S (Suc k)) - int (sliceStart S k)"
    and "int (sliceStart S (Suc k)) - int (sliceStart S k) \<le> \<lceil>S\<rceil>"
proof -
  have next_start: "(of_nat (Suc k) :: rat) * S = of_nat k * S + S"
    by (simp add: algebra_simps)
  have "\<lfloor>of_nat k * S\<rfloor> + \<lfloor>S\<rfloor> \<le> \<lfloor>of_nat k * S + S\<rfloor>"
    by (rule le_floor_add)
  then show "\<lfloor>S\<rfloor> \<le> int (sliceStart S (Suc k)) - int (sliceStart S k)"
    by (simp only: sliceStart_int [OF assms] next_start)
  have "of_nat k * S < of_int \<lfloor>of_nat k * S\<rfloor> + 1" and "S \<le> of_int \<lceil>S\<rceil>"
    by linarith+
  then have "of_nat k * S + S < of_int \<lfloor>of_nat k * S\<rfloor> + of_int \<lceil>S\<rceil> + 1"
    by linarith
  then have "of_nat k * S + S < of_int (\<lfloor>of_nat k * S\<rfloor> + \<lceil>S\<rceil> + 1)"
    by simp
  then have "\<lfloor>of_nat k * S + S\<rfloor> < \<lfloor>of_nat k * S\<rfloor> + \<lceil>S\<rceil> + 1"
    by (simp only: floor_less_iff)
  then show "int (sliceStart S (Suc k)) - int (sliceStart S k) \<le> \<lceil>S\<rceil>"
    by (simp only: sliceStart_int [OF assms] next_start)
qed

lemma concat_slices:
  assumes "0 \<le> S"
  shows "concat (map (\<lambda>k. take (sliceStart S (Suc k) - sliceStart S k) (drop (sliceStart S k) t))
            [0..<m])
     = take (sliceStart S m) t"
proof (induction m)
  case 0
  then show ?case by simp
next
  case (Suc m)
  have "take (sliceStart S m) t
        @ take (sliceStart S (Suc m) - sliceStart S m) (drop (sliceStart S m) t)
      = take (sliceStart S m + (sliceStart S (Suc m) - sliceStart S m)) t"
    by (simp only: take_add)
  also have "\<dots> = take (sliceStart S (Suc m)) t"
    using sliceStart_mono [OF assms, of m] by simp
  finally show ?case
    using Suc by simp
qed

lemma slices_concat:
  assumes "0 \<le> S"
    and "\<forall>k<length cs. cs ! k
        = take (sliceStart S (Suc k) - sliceStart S k) (drop (sliceStart S k) t)"
  shows "concat cs = take (sliceStart S (length cs)) t"
proof -
  from assms(2)
  have "cs = map (\<lambda>k. take (sliceStart S (Suc k) - sliceStart S k) (drop (sliceStart S k) t))
      [0..<length cs]"
    by (intro nth_equalityI) simp_all
  then have "concat cs
      = concat (map (\<lambda>k. take (sliceStart S (Suc k) - sliceStart S k) (drop (sliceStart S k) t))
          [0..<length cs])"
    by simp
  then show ?thesis by (simp only: concat_slices [OF assms(1)])
qed

lemma rel_outputs:
  assumes "list_all2 (\<lambda>p b. \<forall>out. p = Inr out \<longrightarrow> output_text out = b) (map Inr brs) cs"
  shows "map output_text brs = cs"
proof -
  from assms have "list_all2 (\<lambda>out b. output_text out = b) brs cs"
    by (simp add: list_all2_map1)
  then show ?thesis
    by (induction rule: list_all2_induct) simp_all
qed

lemma batch_text_facts:
  assumes S: "0 < S"
    and run: "batchLoop (js_substring t) call (of_nat (length t)) S maxp [] 0 [] [] = Some (res, tr)"
    and call_text: "\<And>b out. call b = Inr out \<Longrightarrow> output_text out = b"
  shows "(\<forall>k<length (calls tr). calls tr ! k
            = take (sliceStart S (Suc k) - sliceStart S k) (drop (sliceStart S k) t))
    \<and> (\<forall>brs. res = Inr brs \<longrightarrow>
          map output_text brs = calls tr
        \<and> of_nat (length t) \<le> of_nat (length (calls tr)) * S
        \<and> (calls tr \<noteq> [] \<longrightarrow> (of_nat (length (calls tr)) - 1) * S < of_nat (length t)))"
proof -
  define R where "R = (\<lambda>(p::error + RedactorOutput) (b::string). \<forall>out. p = Inr out \<longrightarrow> output_text out = b)"
  define chunked where
    "chunked = (\<lambda>cs. \<forall>k<length cs. cs ! k
        = take (sliceStart S (Suc k) - sliceStart S k) (drop (sliceStart S k) t))"
  define I where "I = (\<lambda>(ps::(error + RedactorOutput) list) (start::rat)
      (brs::RedactorOutput list) (tr::string event list).
      start = of_nat (length (calls tr)) * S \<and> chunked (calls tr)
    \<and> (calls tr \<noteq> [] \<longrightarrow> start - S < of_nat (length t))
    \<and> list_all2 R (map Inr brs @ ps) (calls tr))"
  define Q where "Q = (\<lambda>(r::(error + RedactorOutput list) \<times> string event list). chunked (calls (snd r))
    \<and> (\<forall>brs. fst r = Inr brs \<longrightarrow>
          map output_text brs = calls (snd r)
        \<and> of_nat (length t) \<le> of_nat (length (calls (snd r))) * S
        \<and> (calls (snd r) \<noteq> [] \<longrightarrow>
             (of_nat (length (calls (snd r))) - 1) * S < of_nat (length t))))"
  have next_chunk: "chunked (calls tr @ [js_substring t start (start + S)])"
    and next_rel: "list_all2 R (map Inr brs @ ps @ [call (js_substring t start (start + S))])
        (calls tr @ [js_substring t start (start + S)])"
    and next_start: "start + S = of_nat (length (calls tr @ [js_substring t start (start + S)])) * S"
    if "I ps start brs tr" for ps start brs tr
  proof -
    from that have st: "start = of_nat (length (calls tr)) * S" and ch: "chunked (calls tr)"
      and rel: "list_all2 R (map Inr brs @ ps) (calls tr)"
      by (simp_all add: I_def)
    from st have st': "start + S = of_nat (Suc (length (calls tr))) * S"
      by (simp add: algebra_simps)
    from st S have "0 \<le> start" by simp
    from js_substring_chunk [OF this S, of t]
    have sub: "js_substring t start (start + S)
        = take (sliceStart S (Suc (length (calls tr))) - sliceStart S (length (calls tr)))
            (drop (sliceStart S (length (calls tr))) t)"
      unfolding sliceStart_def st' unfolding st .
    show "chunked (calls tr @ [js_substring t start (start + S)])"
      unfolding chunked_def
    proof (intro allI impI)
      fix k assume "k < length (calls tr @ [js_substring t start (start + S)])"
      then consider "k < length (calls tr)" | "k = length (calls tr)"
        by (auto simp: less_Suc_eq)
      then show "(calls tr @ [js_substring t start (start + S)]) ! k
          = take (sliceStart S (Suc k) - sliceStart S k) (drop (sliceStart S k) t)"
      proof cases
        case 1
        with ch show ?thesis by (simp add: chunked_def nth_append)
      next
        case 2
        with sub show ?thesis by (simp add: nth_append)
      qed
    qed
    have "R (call (js_substring t start (start + S))) (js_substring t start (start + S))"
      unfolding R_def using call_text by blast
    with rel have "list_all2 R ((map Inr brs @ ps) @ [call (js_substring t start (start + S))])
        (calls tr @ [js_substring t start (start + S)])"
      by (intro list_all2_appendI) simp_all
    then show "list_all2 R (map Inr brs @ ps @ [call (js_substring t start (start + S))])
        (calls tr @ [js_substring t start (start + S)])"
      by simp
    from st' show "start + S = of_nat (length (calls tr @ [js_substring t start (start + S)])) * S"
      by simp
  qed
  have fin: "Q (Inr (brs @ vs), tr @ [AwaitAll])"
    if inv: "I ps start brs tr" and stop: "\<not> start < of_nat (length t)"
      and all: "promise_all ps = Inr vs" for ps start brs tr vs
  proof -
    from inv have st: "start = of_nat (length (calls tr)) * S" and ch: "chunked (calls tr)"
      and last: "calls tr \<noteq> [] \<longrightarrow> start - S < of_nat (length t)"
      and rel: "list_all2 R (map Inr brs @ ps) (calls tr)"
      unfolding I_def by blast+
    from promise_all_Inr [OF all] rel have "list_all2 R (map Inr (brs @ vs)) (calls tr)"
      by simp
    then have texts: "map output_text (brs @ vs) = calls tr"
      unfolding R_def by (rule rel_outputs)
    from stop st have upper: "of_nat (length t) \<le> of_nat (length (calls tr)) * S"
      by simp
    have lower: "(of_nat (length (calls tr)) - 1) * S < of_nat (length t)" if "calls tr \<noteq> []"
      using that last st by (simp add: algebra_simps)
    from ch texts upper lower show ?thesis
      by (simp add: Q_def)
  qed
  have "Q (res, tr)"
  proof (rule batchLoop_rule [OF run, where I = I and Q = Q])
    show "I [] 0 [] []"
      by (simp add: I_def chunked_def)
  next
    fix ps start brs tr
    assume inv: "I ps start brs tr" and "start < of_nat (length t)"
    with next_chunk [OF inv] next_rel [OF inv] next_start [OF inv]
    show "I (ps @ [call (js_substring t start (start + S))]) (start + S) brs
        (tr @ [Call (js_substring t start (start + S))])"
      by (simp add: I_def)
  next
    fix ps start brs tr vs
    assume inv: "I ps start brs tr" and "start < of_nat (length t)"
      and "promise_all (ps @ [call (js_substring t start (start + S))]) = Inr vs"
    from promise_all_Inr [OF this(3)] this(2)
      next_chunk [OF inv] next_rel [OF inv] next_start [OF inv]
    show "I [] (start + S) (brs @ vs)
        (tr @ [Call (js_substring t start (start + S)), AwaitAll])"
      by (simp add: I_def)
  next
    fix ps start brs tr e
    assume inv: "I ps start brs tr"
    from next_chunk [OF inv]
    show "Q (Inl e, tr @ [Call (js_substring t start (start + S)), AwaitAll])"
      by (simp add: Q_def)
  next
    fix ps start brs tr vs
    assume "I ps start brs tr" "\<not> start < of_nat (length t)" "promise_all ps = Inr vs"
    then show "Q (Inr (brs @ vs), tr @ [AwaitAll])" by (rule fin)
  next
    fix ps start brs tr e
    assume "I ps start brs tr"
    then show "Q (Inl e, tr @ [AwaitAll])"
      by (simp add: Q_def I_def)
  qed
  then show ?thesis
    by (simp add: Q_def chunked_def)
qed

lemma doRedactAsync_text:
  assumes "doRedactAsync opts engine t flt False = Inr out"
  shows "output_text out = t"
  using assms
  by (auto simp: doRedactAsync_def Let_def split: sum.splits if_splits)

lemma doRedactAsync_ok:
  assumes "engine t = Inr raw"
  shows "\<exists>out. doRedactAsync opts engine t (Some p) False = Inr out"
  using assms by (simp add: doRedactAsync_def Let_def filterFindings_Some del: filterFindings.simps)

lemma foldl_append_concat: "foldl (\<lambda>a b. a @ b) x xs = x @ concat xs"
  by (induction xs arbitrary: x) simp_all

lemma mergeResults_text:
  assumes "mergeResults brs = Inr out"
  shows "output_text out = concat (map output_text brs)"
proof (cases brs)
  case Nil
  with assms show ?thesis by (simp add: mergeResults_def)
next
  case (Cons b bs)
  with assms show ?thesis
    by (auto simp: mergeResults_def foldl_append_concat)
qed

lemma mergeResults_ok:
  assumes "brs \<noteq> []"
  shows "\<exists>out. mergeResults brs = Inr out"
  using assms by (cases brs) (simp_all add: mergeResults_def)

lemma batchLoop_nonpositive_size:
  assumes run: "batchLoop slice call n S maxp [] 0 [] [] = Some (res, tr)"
    and "S \<le> 0" and "0 < n"
  shows "\<exists>e. res = Inl e"
proof -
  have "\<exists>e. fst (res, tr) = Inl e"
    by (rule batchLoop_rule [OF run, where I = "\<lambda>ps start brs tr. start \<le> 0"
          and Q = "\<lambda>r. \<exists>e. fst r = Inl e"])
      (use assms in auto)
  then show ?thesis by simp
qed

lemma batchLoop_all_ok:
  assumes run: "batchLoop slice call n S maxp [] 0 [] [] = Some (res, tr)"
    and ok: "\<And>b. \<exists>out. call b = Inr out"
  shows "\<exists>brs. res = Inr brs"
proof -
  have all: "\<exists>vs. promise_all ps = Inr vs" if "\<forall>p\<in>set ps. \<exists>out. p = Inr out" for ps :: "(error + RedactorOutput) list"
  proof -
    from that have "\<exists>vs. ps = map Inr vs"
      by (induction ps) (auto simp: Cons_eq_map_conv)
    then show ?thesis
      by (auto simp: promise_all_map_Inr)
  qed
  have "\<exists>brs. fst (res, tr) = Inr brs"
  proof (rule batchLoop_rule [OF run, where I = "\<lambda>ps start brs tr. \<forall>p\<in>set ps. \<exists>out. p = Inr out"
          and Q = "\<lambda>r. \<exists>brs. fst r = Inr brs"], goal_cases)
    case 1
    then show ?case by simp
  next
    case (2 ps start rs tr)
    with ok show ?case by auto
  next
    case (3 ps start rs tr vs)
    then show ?case by simp
  next
    case (4 ps start rs tr e)
    with ok have "\<forall>p\<in>set (ps @ [call (slice start (start + S))]). \<exists>out. p = Inr out"
      by auto
    from all [OF this] 4 show ?case by simp
  next
    case (5 ps start rs tr vs)
    then show ?case by simp
  next
    case (6 ps start rs tr e)
    from all [OF 6(1)] 6 show ?case by simp
  qed
  then show ?thesis by simp
qed

lemma redactAsync_run_batched:
  assumes size: "maxContentSize env opts = S" and pos: "0 < S"
    and long: "S < of_nat (length t)"
    and auto_batch: "\<not> disableAutoBatchWhenContentSizeExceedsLimit opts"
  shows "\<exists>res tr. redactAsync_run env opts engine t flt = Some (res, tr)
     \<and> (\<forall>k<length (calls tr). calls tr ! k
            = take (sliceStart S (Suc k) - sliceStart S k) (drop (sliceStart S k) t))
     \<and> (\<forall>out. res = Inr out \<longrightarrow>
           (\<exists>batchResults. map output_text batchResults = calls tr
               \<and> mergeResults batchResults = Inr out)
         \<and> of_nat (length t) \<le> of_nat (length (calls tr)) * S
         \<and> (of_nat (length (calls tr)) - 1) * S < of_nat (length t)
         \<and> calls tr \<noteq> [])
     \<and> ((\<forall>s. \<exists>raw. engine s = Inr raw) \<and> flt \<noteq> None \<longrightarrow> (\<exists>out. res = Inr out))"
proof -
  let ?call = "\<lambda>batchText. doRedactAsync opts engine batchText flt False"
  from pos obtain bres tr where
    run: "batchLoop (js_substring t) ?call (of_nat (length t)) S (MAX_PROMISES env) [] 0 [] []
      = Some (bres, tr)"
    using batchLoop_terminates [of S "js_substring t" ?call "of_nat (length t)"
        "MAX_PROMISES env" "[]" 0 "[]" "[]"]
    by auto
  have facts: "(\<forall>k<length (calls tr). calls tr ! k
            = take (sliceStart S (Suc k) - sliceStart S k) (drop (sliceStart S k) t))
    \<and> (\<forall>brs. bres = Inr brs \<longrightarrow>
          map output_text brs = calls tr
        \<and> of_nat (length t) \<le> of_nat (length (calls tr)) * S
        \<and> (calls tr \<noteq> [] \<longrightarrow> (of_nat (length (calls tr)) - 1) * S < of_nat (length t)))"
    by (rule batch_text_facts [OF pos run]) (use doRedactAsync_text in auto)
  define res where "res = (case bres of Inl e \<Rightarrow> Inl e | Inr brs \<Rightarrow> mergeResults brs)"
  from size long auto_batch run
  have result: "redactAsync_run env opts engine t flt = Some (res, tr)"
    by (simp add: redactAsync_run_def res_def split: sum.splits)
  have nonempty: "calls tr \<noteq> []" if "bres = Inr brs" for brs
  proof
    assume "calls tr = []"
    with facts that have "(of_nat (length t) :: rat) \<le> 0" by simp
    with long pos show False by simp
  qed
  have good: "(\<exists>batchResults. map output_text batchResults = calls tr
               \<and> mergeResults batchResults = Inr out)
         \<and> of_nat (length t) \<le> of_nat (length (calls tr)) * S
         \<and> (of_nat (length (calls tr)) - 1) * S < of_nat (length t)
         \<and> calls tr \<noteq> []" if "res = Inr out" for out
  proof -
    from that obtain brs where brs: "bres = Inr brs" and m: "mergeResults brs = Inr out"
      by (auto simp: res_def split: sum.splits)
    with facts nonempty [OF brs] show ?thesis by auto
  qed
  have ok: "\<exists>out. res = Inr out" if eng: "\<forall>s. \<exists>raw. engine s = Inr raw" and flt: "flt \<noteq> None"
  proof -
    from flt obtain p where p: "flt = Some p" by auto
    have "\<exists>out. ?call b = Inr out" for b
      using eng doRedactAsync_ok [of engine b _ opts p] unfolding p by blast
    from batchLoop_all_ok [OF run this] obtain brs where brs: "bres = Inr brs"
      by blast
    with facts nonempty [OF brs] have "brs \<noteq> []" by auto
    from mergeResults_ok [OF this] brs show ?thesis
      by (simp add: res_def)
  qed
  from result facts good ok show ?thesis
    by (intro exI [of _ res] exI [of _ tr] conjI allI impI) blast+
qed

lemma ceil_count:
  fixes m S L :: nat
  assumes "0 < S" "0 < m" "L \<le> m * S" "(m - 1) * S < L"
  shows "m = (L + S - 1) div S"
proof -
  from assms obtain m' where m: "m = Suc m'" by (cases m) auto
  have "S * m \<le> L + S - 1"
    using assms m by (simp add: algebra_simps)
  moreover have "L + S - 1 < S * Suc m"
    using assms by (simp add: algebra_simps)
  ultimately show ?thesis
    by (simp add: div_nat_eqI)
qed

lemma covered:
  assumes "0 \<le> S" and "(of_nat L :: rat) \<le> of_nat m * S"
  shows "L \<le> sliceStart S m"
proof -
  from assms(2) have "of_int (int L) \<le> (of_nat m :: rat) * S" by simp
  then have "int L \<le> \<lfloor>of_nat m * S\<rfloor>" by (simp only: le_floor_iff)
  then show ?thesis
    by (simp add: sliceStart_def)
qed

lemma not_covered:
  assumes "0 \<le> S" and "(of_nat k :: rat) * S < of_nat L"
  shows "sliceStart S k < L"
proof -
  have "of_int \<lfloor>of_nat k * S\<rfloor> \<le> (of_nat k :: rat) * S" by (rule of_int_floor_le)
  with assms(2) have "(of_int \<lfloor>of_nat k * S\<rfloor> :: rat) < of_nat L" by linarith
  then have "(of_int \<lfloor>of_nat k * S\<rfloor> :: rat) < of_int (int L)" by simp
  then have "\<lfloor>of_nat k * S\<rfloor> < int L" by (simp only: of_int_less_iff)
  moreover from assms(1) have "0 \<le> (of_nat k :: rat) * S" by simp
  then have "0 \<le> \<lfloor>of_nat k * S\<rfloor>" by (simp only: zero_le_floor)
  ultimately have "nat \<lfloor>of_nat k * S\<rfloor> < nat (int L)"
    by (intro nat_mono_iff [THEN iffD2]) linarith+
  then show ?thesis
    by (simp add: sliceStart_def)
qed

lemma redactAsync_run_batched_text:
  assumes size: "maxContentSize env opts = S" and pos: "0 < S"
    and long: "S < of_nat (length t)"
    and auto_batch: "\<not> disableAutoBatchWhenContentSizeExceedsLimit opts"
  shows "\<exists>res tr. redactAsync_run env opts engine t flt = Some (res, tr)
     \<and> (\<forall>out. res = Inr out \<longrightarrow> output_text out = t)
     \<and> ((\<forall>s. \<exists>raw. engine s = Inr raw) \<and> flt \<noteq> None \<longrightarrow> (\<exists>out. res = Inr out))"
proof -
  from redactAsync_run_batched [OF assms, of engine flt] obtain res tr where
    run: "redactAsync_run env opts engine t flt = Some (res, tr)"
    and chunk: "\<forall>k<length (calls tr). calls tr ! k
            = take (sliceStart S (Suc k) - sliceStart S k) (drop (sliceStart S k) t)"
    and good: "\<forall>out. res = Inr out \<longrightarrow>
           (\<exists>batchResults. map output_text batchResults = calls tr
               \<and> mergeResults batchResults = Inr out)
         \<and> of_nat (length t) \<le> of_nat (length (calls tr)) * S
         \<and> (of_nat (length (calls tr)) - 1) * S < of_nat (length t)
         \<and> calls tr \<noteq> []"
    and ok: "(\<forall>s. \<exists>raw. engine s = Inr raw) \<and> flt \<noteq> None \<longrightarrow> (\<exists>out. res = Inr out)"
    by (elim exE conjE)
  from pos have S0: "0 \<le> S" by simp
  have "output_text out = t" if "res = Inr out" for out
  proof -
    from good that obtain brs where texts: "map output_text brs = calls tr"
      and merged: "mergeResults brs = Inr out"
      and upper: "of_nat (length t) \<le> of_nat (length (calls tr)) * S"
      by blast
    from slices_concat [OF S0 chunk] covered [OF S0 upper] have "concat (calls tr) = t"
      by simp
    with mergeResults_text [OF merged] texts show ?thesis
      by simp
  qed
  then have "\<forall>out. res = Inr out \<longrightarrow> output_text out = t" by simp
  with run ok show ?thesis
    by (intro exI conjI)
qed

text \<open>
  C4 (as the code has it). When the content is longer than the batch size \<open>S\<close> (a positive
  number, not always a whole one: half the limit by default) and batching is not disabled,
  \<^verbatim>\<open>redactAsync\<close> returns; the \<open>k\<close>-th batch it sends is the content from position
  \<open>\<lfloor>k * S\<rfloor>\<close> up to position \<open>\<lfloor>(k + 1) * S\<rfloor>\<close>. When the run succeeds, there are
  \<open>\<lceil>L / S\<rceil>\<close> batches, each but the last of \<open>\<lfloor>S\<rfloor>\<close> to \<open>\<lceil>S\<rceil>\<close> characters (of exactly
  \<open>S\<close>, where \<open>S\<close> is a whole number), the last not empty and of at most \<open>\<lceil>S\<rceil>\<close>; their
  concatenation is the content, the output texts of the batches are the batches
  themselves, and the text of the result, their concatenation, is the content. The run
  succeeds when the engine answers every call and a policy is given.
\<close>

theorem redactAsync_partition:
  assumes size: "maxContentSize env opts = S" and pos: "0 < S"
    and long: "S < of_nat (length t)"
    and auto_batch: "\<not> disableAutoBatchWhenContentSizeExceedsLimit opts"
  shows "\<exists>res tr. redactAsync_run env opts engine t flt = Some (res, tr)
     \<and> (\<forall>k<length (calls tr). calls tr ! k
            = take (sliceStart S (Suc k) - sliceStart S k) (drop (sliceStart S k) t))
     \<and> (\<forall>out. res = Inr out \<longrightarrow>
           int (length (calls tr)) = \<lceil>of_nat (length t) / S\<rceil>
         \<and> (\<forall>k. Suc k < length (calls tr) \<longrightarrow>
               \<lfloor>S\<rfloor> \<le> int (length (calls tr ! k)) \<and> int (length (calls tr ! k)) \<le> \<lceil>S\<rceil>)
         \<and> (\<forall>n. S = of_nat n \<longrightarrow>
               (\<forall>k. Suc k < length (calls tr) \<longrightarrow> length (calls tr ! k) = n)
             \<and> (\<forall>k<length (calls tr). calls tr ! k = take n (drop (k * n) t))
             \<and> length (calls tr) = (length t + n - 1) div n)
         \<and> last (calls tr) \<noteq> [] \<and> int (length (last (calls tr))) \<le> \<lceil>S\<rceil>
         \<and> concat (calls tr) = t
         \<and> (\<exists>batchResults. map output_text batchResults = calls tr
               \<and> mergeResults batchResults = Inr out)
         \<and> output_text out = t)
     \<and> ((\<forall>s. \<exists>raw. engine s = Inr raw) \<and> flt \<noteq> None \<longrightarrow> (\<exists>out. res = Inr out))"
proof -
  from redactAsync_run_batched [OF assms, of engine flt] obtain res tr where
    run: "redactAsync_run env opts engine t flt = Some (res, tr)"
    and chunk: "\<forall>k<length (calls tr). calls tr ! k
            = take (sliceStart S (Suc k) - sliceStart S k) (drop (sliceStart S k) t)"
    and good: "\<forall>out. res = Inr out \<longrightarrow>
           (\<exists>batchResults. map output_text batchResults = calls tr
               \<and> mergeResults batchResults = Inr out)
         \<and> of_nat (length t) \<le> of_nat (length (calls tr)) * S
         \<and> (of_nat (length (calls tr)) - 1) * S < of_nat (length t)
         \<and> calls tr \<noteq> []"
    and ok: "(\<forall>s. \<exists>raw. engine s = Inr raw) \<and> flt \<noteq> None \<longrightarrow> (\<exists>out. res = Inr out)"
    by (elim exE conjE)
  from pos have S0: "0 \<le> S" by simp
  have shape: "int (length (calls tr)) = \<lceil>of_nat (length t) / S\<rceil>
         \<and> (\<forall>k. Suc k < length (calls tr) \<longrightarrow>
               \<lfloor>S\<rfloor> \<le> int (length (calls tr ! k)) \<and> int (length (calls tr ! k)) \<le> \<lceil>S\<rceil>)
         \<and> (\<forall>n. S = of_nat n \<longrightarrow>
               (\<forall>k. Suc k < length (calls tr) \<longrightarrow> length (calls tr ! k) = n)
             \<and> (\<forall>k<length (calls tr). calls tr ! k = take n (drop (k * n) t))
             \<and> length (calls tr) = (length t + n - 1) div n)
         \<and> last (calls tr) \<noteq> [] \<and> int (length (last (calls tr))) \<le> \<lceil>S\<rceil>
         \<and> concat (calls tr) = t
         \<and> (\<exists>batchResults. map output_text batchResults = calls tr
               \<and> mergeResults batchResults = Inr out)
         \<and> output_text out = t" if "res = Inr out" for out
  proof -
    define m where "m = length (calls tr)"
    from good that obtain brs where texts: "map output_text brs = calls tr"
      and merged: "mergeResults brs = Inr out"
      and upper: "of_nat (length t) \<le> of_nat m * S"
      and lower: "(of_nat m - 1) * S < of_nat (length t)"
      and ne: "calls tr \<noteq> []"
      unfolding m_def by blast
    from ne have m_pos: "0 < m" by (simp add: m_def)
    have count: "int m = \<lceil>of_nat (length t) / S\<rceil>"
    proof (rule ceiling_unique [symmetric])
      from lower pos show "of_int (int m) - 1 < (of_nat (length t) :: rat) / S"
        by (simp add: pos_less_divide_eq)
      from upper pos show "(of_nat (length t) :: rat) / S \<le> of_int (int m)"
        by (simp add: pos_divide_le_eq)
    qed
    have inner: "sliceStart S (Suc k) < length t" if "Suc k < m" for k
    proof -
      from that have "(of_nat (Suc k) :: rat) \<le> of_nat m - 1"
        by (simp add: of_nat_diff [symmetric] Suc_le_eq del: of_nat_Suc)
      then have "of_nat (Suc k) * S \<le> (of_nat m - 1) * S"
        using S0 by (rule mult_right_mono)
      with lower have "of_nat (Suc k) * S < of_nat (length t)" by simp
      then show ?thesis by (rule not_covered [OF S0])
    qed
    have full: "length (calls tr ! k) = sliceStart S (Suc k) - sliceStart S k"
      if "Suc k < m" for k
    proof -
      from that chunk have "calls tr ! k
          = take (sliceStart S (Suc k) - sliceStart S k) (drop (sliceStart S k) t)"
        by (simp add: m_def)
      with inner [OF that] show ?thesis by simp
    qed
    have widths: "\<lfloor>S\<rfloor> \<le> int (length (calls tr ! k)) \<and> int (length (calls tr ! k)) \<le> \<lceil>S\<rceil>"
      if "Suc k < m" for k
      using sliceStart_width [OF S0, of k] sliceStart_mono [OF S0, of k] full [OF that]
      by (simp add: of_nat_diff)
    have last_eq: "last (calls tr)
        = take (sliceStart S (Suc (m - 1)) - sliceStart S (m - 1)) (drop (sliceStart S (m - 1)) t)"
      using chunk ne m_pos by (simp add: last_conv_nth m_def)
    have before: "sliceStart S (m - 1) < length t"
    proof (rule not_covered [OF S0])
      from m_pos have "(of_nat (m - 1) :: rat) = of_nat m - 1"
        by (simp add: of_nat_diff Suc_le_eq)
      with lower show "(of_nat (m - 1) :: rat) * S < of_nat (length t)" by simp
    qed
    from m_pos have after: "length t \<le> sliceStart S (Suc (m - 1))"
      using covered [OF S0 upper] by simp
    from last_eq before after have last_ne: "last (calls tr) \<noteq> []"
      by simp
    from last_eq have "length (last (calls tr)) \<le> sliceStart S (Suc (m - 1)) - sliceStart S (m - 1)"
      by simp
    with sliceStart_width(2) [OF S0, of "m - 1"] sliceStart_mono [OF S0, of "m - 1"]
    have last_le: "int (length (last (calls tr))) \<le> \<lceil>S\<rceil>"
      by linarith
    from slices_concat [OF S0 chunk] covered [OF S0 upper] have whole: "concat (calls tr) = t"
      by (simp add: m_def)
    from mergeResults_text [OF merged] texts whole have unchanged: "output_text out = t"
      by simp
    have whole_size: "(\<forall>k. Suc k < m \<longrightarrow> length (calls tr ! k) = n)
             \<and> (\<forall>k<m. calls tr ! k = take n (drop (k * n) t))
             \<and> m = (length t + n - 1) div n" if n: "S = of_nat n" for n
    proof -
      from pos n have n_pos: "0 < n" by (cases n) simp_all
      have a: "length (calls tr ! k) = n" if "Suc k < m" for k
        using full [OF that] by (simp add: n)
      have b: "calls tr ! k = take n (drop (k * n) t)" if "k < m" for k
        using chunk that by (simp add: n m_def)
      from upper have "(of_nat (length t) :: rat) \<le> of_nat (m * n)"
        by (simp add: n)
      then have up: "length t \<le> m * n"
        by (simp only: of_nat_le_iff)
      from lower m_pos have "(of_nat ((m - 1) * n) :: rat) < of_nat (length t)"
        by (simp add: n of_nat_diff Suc_le_eq)
      then have low: "(m - 1) * n < length t"
        by (simp only: of_nat_less_iff)
      have "m = (length t + n - 1) div n"
        by (rule ceil_count [OF n_pos m_pos up low])
      with a b show ?thesis by blast
    qed
    from count widths whole_size last_ne last_le whole texts merged unchanged show ?thesis
      unfolding m_def by (intro conjI allI impI exI [of _ brs]) blast+
  qed
  from run chunk shape ok show ?thesis
    by (intro exI [of _ res] exI [of _ tr] conjI allI impI) blast+
qed

text \<open>
  With \<^verbatim>\<open>replaceText\<close> a call does rewrite its text: on the example the resolver keeps
  the findings at 11-15 and 15-17, and their quotes give way to the names of their info
  types, the more likely first. No caller in the module passes \<^verbatim>\<open>replaceText\<close>.
\<close>

lemma doRedactAsync_substitution_example:
  "doRedactAsync no_opts (\<lambda>t. Inr [person_name, first_name, last_name])
     ''My name is John D.'' (Some Map.empty) True
   = Inr \<lparr>config_infoTypes = [], metrics_findingsCap = 0, metrics_maxFindings = 3,
          output_text = ''My name is FIRST_NAME LAST_NAME'',
          findings = [person_name, first_name, last_name]\<rparr>"
  by code_simp

text \<open>
  C10. The text of a result that \<^verbatim>\<open>redactAsync\<close> returns is its input, in the single
  call and in the batched run: \<open>redactAsync_run\<close> passes \<open>False\<close> for \<^verbatim>\<open>replaceText\<close>
  in both. And it does return a result when the batch size is positive, the engine answers
  every call and a policy is given.
\<close>

theorem redactAsync_text_unchanged:
  "(redactAsync env opts engine t flt = Some (Inr out) \<longrightarrow> output_text out = t)
   \<and> (0 < maxContentSize env opts \<and> (\<forall>s. \<exists>raw. engine s = Inr raw) \<and> flt \<noteq> None \<longrightarrow>
        (\<exists>out'. redactAsync env opts engine t flt = Some (Inr out') \<and> output_text out' = t))"
proof (intro conjI impI)
  assume res: "redactAsync env opts engine t flt = Some (Inr out)"
  then obtain tr where run: "redactAsync_run env opts engine t flt = Some (Inr out, tr)"
    by (auto simp: redactAsync_def)
  show "output_text out = t"
  proof (cases "maxContentSize env opts < of_nat (length t)
      \<and> \<not> disableAutoBatchWhenContentSizeExceedsLimit opts")
    case False
    with run have "doRedactAsync opts engine t flt False = Inr out"
      by (auto simp: redactAsync_run_def)
    then show ?thesis by (rule doRedactAsync_text)
  next
    case True
    let ?call = "\<lambda>batchText. doRedactAsync opts engine batchText flt False"
    from True run obtain brs where
      loop: "batchLoop (js_substring t) ?call (of_nat (length t)) (maxContentSize env opts)
          (MAX_PROMISES env) [] 0 [] [] = Some (Inr brs, tr)"
      and merged: "mergeResults brs = Inr out"
      by (auto simp: redactAsync_run_def split: option.splits sum.splits)
    show ?thesis
    proof (cases "0 < maxContentSize env opts")
      case pos: True
      from True have "maxContentSize env opts < of_nat (length t)"
        and "\<not> disableAutoBatchWhenContentSizeExceedsLimit opts"
        by simp_all
      from redactAsync_run_batched_text [OF refl pos this, of engine flt] run
      show ?thesis by auto
    next
      case False
      show ?thesis
      proof (cases "t = []")
        case True
        with loop have "brs = []"
          by (simp add: batchLoop.simps)
        with merged show ?thesis by (simp add: mergeResults_def)
      next
        case nonempty: False
        then have "(0::rat) < of_nat (length t)" by simp
        from batchLoop_nonpositive_size [OF loop _ this] False
        show ?thesis by simp
      qed
    qed
  qed
next
  assume a: "0 < maxContentSize env opts \<and> (\<forall>s. \<exists>raw. engine s = Inr raw) \<and> flt \<noteq> None"
  then obtain p where p: "flt = Some p" by auto
  show "\<exists>out'. redactAsync env opts engine t flt = Some (Inr out') \<and> output_text out' = t"
  proof (cases "maxContentSize env opts < of_nat (length t)
      \<and> \<not> disableAutoBatchWhenContentSizeExceedsLimit opts")
    case False
    from a obtain raw where "engine t = Inr raw" by blast
    from doRedactAsync_ok [of engine t raw opts p] this obtain out' where
      one: "doRedactAsync opts engine t flt False = Inr out'"
      unfolding p by blast
    with False have "redactAsync env opts engine t flt = Some (Inr out')"
      by (auto simp: redactAsync_def redactAsync_run_def)
    with doRedactAsync_text [OF one] show ?thesis by simp
  next
    case True
    then have "maxContentSize env opts < of_nat (length t)"
      and "\<not> disableAutoBatchWhenContentSizeExceedsLimit opts"
      by simp_all
    from a have "0 < maxContentSize env opts" by simp
    from redactAsync_run_batched_text [OF refl this \<open>maxContentSize env opts < of_nat (length t)\<close>
        \<open>\<not> disableAutoBatchWhenContentSizeExceedsLimit opts\<close>, of engine flt] a
    show ?thesis by (auto simp: redactAsync_def)
  qed
qed

lemma small_run:
  "redactAsync_run small_env no_opts (\<lambda>t. Inr []) ''My name is John D.'' (Some Map.empty)
   = Some (Inr \<lparr>config_infoTypes = [], metrics_findingsCap = 0, metrics_maxFindings = 0,
                output_text = ''My name is John D.'', findings = []\<rparr>,
           [Call ''My n'', Call ''ame '', AwaitAll, Call ''is J'', Call ''ohn '', AwaitAll,
            Call ''D.'', AwaitAll])"
  by (simp add: redactAsync_run_def small_env_def no_opts_def maxContentSize_def batchLoop.simps
      js_substring_def js_toInteger_def doRedactAsync_def getInspectConfig_names_def
      mergeResults_def Let_def)

theorem redactAsync_partition_witness:
  "maxContentSize small_env no_opts = 4
   \<and> (4::rat) < of_nat (length ''My name is John D.'')
   \<and> \<not> disableAutoBatchWhenContentSizeExceedsLimit no_opts
   \<and> (\<exists>out tr. redactAsync_run small_env no_opts (\<lambda>t. Inr []) ''My name is John D.''
          (Some Map.empty) = Some (Inr out, tr)
        \<and> calls tr = [''My n'', ''ame '', ''is J'', ''ohn '', ''D.'']
        \<and> int (length (calls tr)) = \<lceil>of_nat (length ''My name is John D.'') / (4::rat)\<rceil>
        \<and> length (calls tr) = (length ''My name is John D.'' + 4 - 1) div 4
        \<and> concat (calls tr) = ''My name is John D.''
        \<and> output_text out = ''My name is John D.'')"
proof -
  have hyps: "maxContentSize small_env no_opts = 4" "(0::rat) < 4"
    "(4::rat) < of_nat (length ''My name is John D.'')"
    "\<not> disableAutoBatchWhenContentSizeExceedsLimit no_opts"
    by (simp_all add: maxContentSize_def small_env_def no_opts_def)
  from redactAsync_partition [OF hyps, of "\<lambda>t. Inr []" "Some Map.empty"]
  obtain res tr where run: "redactAsync_run small_env no_opts (\<lambda>t. Inr [])
      ''My name is John D.'' (Some Map.empty) = Some (res, tr)"
    and good: "\<forall>out. res = Inr out \<longrightarrow>
        int (length (calls tr)) = \<lceil>of_nat (length ''My name is John D.'') / (4::rat)\<rceil>
      \<and> (\<forall>k. Suc k < length (calls tr) \<longrightarrow>
            \<lfloor>4::rat\<rfloor> \<le> int (length (calls tr ! k)) \<and> int (length (calls tr ! k)) \<le> \<lceil>4::rat\<rceil>)
      \<and> (\<forall>n. (4::rat) = of_nat n \<longrightarrow>
            (\<forall>k. Suc k < length (calls tr) \<longrightarrow> length (calls tr ! k) = n)
          \<and> (\<forall>k<length (calls tr). calls tr ! k = take n (drop (k * n) ''My name is John D.''))
          \<and> length (calls tr) = (length ''My name is John D.'' + n - 1) div n)
      \<and> last (calls tr) \<noteq> [] \<and> int (length (last (calls tr))) \<le> \<lceil>4::rat\<rceil>
      \<and> concat (calls tr) = ''My name is John D.''
      \<and> (\<exists>batchResults. map output_text batchResults = calls tr
            \<and> mergeResults batchResults = Inr out)
      \<and> output_text out = ''My name is John D.''"
    by (elim exE conjE)
  from run have res: "res = Inr \<lparr>config_infoTypes = [], metrics_findingsCap = 0,
      metrics_maxFindings = 0, output_text = ''My name is John D.'', findings = []\<rparr>"
    and tr: "calls tr = [''My n'', ''ame '', ''is J'', ''ohn '', ''D.'']"
    by (auto simp: small_run calls_def)
  from good res have count: "int (length (calls tr))
      = \<lceil>of_nat (length ''My name is John D.'') / (4::rat)\<rceil>"
    and whole: "\<forall>n. (4::rat) = of_nat n \<longrightarrow>
            (\<forall>k. Suc k < length (calls tr) \<longrightarrow> length (calls tr ! k) = n)
          \<and> (\<forall>k<length (calls tr). calls tr ! k = take n (drop (k * n) ''My name is John D.''))
          \<and> length (calls tr) = (length ''My name is John D.'' + n - 1) div n"
    and cat: "concat (calls tr) = ''My name is John D.''"
    by blast+
  from whole [rule_format, of 4]
  have count': "length (calls tr) = (length ''My name is John D.'' + 4 - 1) div 4"
    by simp
  with hyps run res tr count cat show ?thesis
    by (intro conjI exI [of _ tr] exI [of _ "\<lparr>config_infoTypes = [], metrics_findingsCap = 0,
      metrics_maxFindings = 0, output_text = ''My name is John D.'', findings = []\<rparr>"]) simp_all
qed

text \<open>
  C4 as the specification states it fails for an odd limit. With
  \<^verbatim>\<open>MAX_CONTENT_LENGTH\<close> at 7 the batch size is 3.5, the start index takes the values
  0, 3.5, 7 and 10.5, and the fourteen characters go out in slices of 3, 4, 3 and 4: no
  slice has exactly \<open>S\<close> characters, and slices before the last differ in length.
\<close>

theorem redactAsync_odd_limit_counterexample:
  "maxContentSize odd_env no_opts = 7 / 2
   \<and> \<not> disableAutoBatchWhenContentSizeExceedsLimit no_opts
   \<and> redactAsync_run odd_env no_opts (\<lambda>t. Inr []) ''abcdefghijklmn'' (Some Map.empty)
     = Some (Inr \<lparr>config_infoTypes = [], metrics_findingsCap = 0, metrics_maxFindings = 0,
                  output_text = ''abcdefghijklmn'', findings = []\<rparr>,
             [Call ''abc'', Call ''defg'', AwaitAll, Call ''hij'', Call ''klmn'', AwaitAll,
              AwaitAll])
   \<and> length ''abc'' = 3 \<and> length ''defg'' = 4"
  by code_simp

theorem redactAsync_text_unchanged_witness:
  "redactAsync small_env no_opts (\<lambda>t. Inr []) ''My name is John D.'' (Some Map.empty)
     = Some (Inr \<lparr>config_infoTypes = [], metrics_findingsCap = 0, metrics_maxFindings = 0,
                output_text = ''My name is John D.'', findings = []\<rparr>)
   \<and> output_text \<lparr>config_infoTypes = [], metrics_findingsCap = 0, metrics_maxFindings = 0,
                output_text = ''My name is John D.'', findings = []\<rparr> = ''My name is John D.''
   \<and> 0 < maxContentSize default_env no_opts
   \<and> (\<exists>out. redactAsync default_env no_opts (\<lambda>t. Inr [person_name]) ''My name is John D.''
         (Some Map.empty) = Some (Inr out) \<and> output_text out = ''My name is John D.'')"
proof -
  let ?out = "\<lparr>config_infoTypes = [], metrics_findingsCap = 0, metrics_maxFindings = 0,
                output_text = ''My name is John D.'', findings = []\<rparr>"
  have run: "redactAsync small_env no_opts (\<lambda>t. Inr []) ''My name is John D.''
      (Some Map.empty) = Some (Inr ?out)"
    by (simp add: redactAsync_def small_run)
  from redactAsync_text_unchanged
    [of small_env no_opts "\<lambda>t. Inr []" "''My name is John D.''" "Some Map.empty" ?out]
    run
  have unchanged: "output_text ?out = ''My name is John D.''"
    by blast
  have pos: "0 < maxContentSize default_env no_opts"
    by (simp add: maxContentSize_def default_env_def no_opts_def)
  with redactAsync_text_unchanged
    [of default_env no_opts "\<lambda>t. Inr [person_name]" "''My name is John D.''"
      "Some Map.empty" ?out]
  have "\<exists>out. redactAsync default_env no_opts (\<lambda>t. Inr [person_name]) ''My name is John D.''
         (Some Map.empty) = Some (Inr out) \<and> output_text out = ''My name is John D.''"
    by blast
  with run unchanged pos show ?thesis by blast
qed

section \<open>Calls in flight\<close>

lemma inFlight_simps [simp]:
  "inFlight [] = 0"
  "inFlight (tr @ [Call b]) = Suc (inFlight tr)"
  "inFlight (tr @ [AwaitAll]) = 0"
  "inFlight (tr @ [Call b, AwaitAll]) = 0"
  by (simp_all add: inFlight_def)

lemma bounded_snoc:
  assumes "bounded maxp tr" and "int (inFlight (tr @ [e])) \<le> maxp"
  shows "bounded maxp (tr @ [e])"
  unfolding bounded_def
proof (intro allI impI)
  fix k assume "k \<le> length (tr @ [e])"
  then consider "k \<le> length tr" | "k = length (tr @ [e])"
    by (auto simp: le_Suc_eq)
  then show "int (inFlight (take k (tr @ [e]))) \<le> maxp"
  proof cases
    case 1
    with assms(1) show ?thesis by (simp add: bounded_def)
  next
    case 2
    with assms(2) show ?thesis by simp
  qed
qed

lemma batchLoop_bounded:
  assumes run: "batchLoop slice call n S maxp [] 0 [] [] = Some (res, tr)"
    and maxp: "1 \<le> maxp"
  shows "bounded maxp tr"
proof -
  define I where "I = (\<lambda>(ps::(error + RedactorOutput) list) (start::rat)
      (brs::RedactorOutput list) (tr::'a event list).
      inFlight tr = length ps \<and> int (length ps) < maxp \<and> bounded maxp tr)"
  have step: "bounded maxp (tr @ [Call b]) \<and> bounded maxp ((tr @ [Call b]) @ [AwaitAll])"
    if "I ps start brs tr" for ps start brs tr b
  proof -
    from that have one: "bounded maxp (tr @ [Call b])"
      by (intro bounded_snoc) (simp_all add: I_def)
    have "int (inFlight ((tr @ [Call b]) @ [AwaitAll])) \<le> maxp"
      using maxp by (simp only: inFlight_simps)
    from bounded_snoc [OF one this] one show ?thesis by simp
  qed
  have stop: "bounded maxp (tr @ [AwaitAll])" if "I ps start brs tr" for ps start brs tr
    using that maxp by (intro bounded_snoc) (simp_all add: I_def)
  have "bounded maxp (snd (res, tr))"
  proof (rule batchLoop_rule [OF run, where I = I and Q = "\<lambda>r. bounded maxp (snd r)"],
      goal_cases)
    case 1
    from maxp show ?case by (simp add: I_def bounded_def)
  next
    case (2 ps start brs tr)
    with step [OF 2(1)] show ?case by (simp add: I_def)
  next
    case (3 ps start brs tr vs)
    with step [OF 3(1)] maxp show ?case by (simp add: I_def)
  next
    case (4 ps start brs tr e)
    with step [OF 4(1)] show ?case by simp
  next
    case (5 ps start brs tr vs)
    with stop [OF 5(1)] show ?case by simp
  next
    case (6 ps start brs tr e)
    with stop [OF 6(1)] show ?case by simp
  qed
  then show ?thesis by simp
qed

lemma batchLoop_waves:
  assumes run: "batchLoop slice call n S maxp [] 0 [] [] = Some (res, tr)"
    and maxp: "1 \<le> maxp"
  shows "\<exists>ws. tr = concat (map wave ws) \<and> (\<forall>w\<in>set ws. int (length w) \<le> maxp)"
proof -
  define W where "W = (\<lambda>(tr::'a event list) pend.
      \<exists>ws. tr = concat (map wave ws) @ map Call pend \<and> (\<forall>w\<in>set ws. int (length w) \<le> maxp))"
  define I where "I = (\<lambda>(ps::(error + RedactorOutput) list) (start::rat)
      (brs::RedactorOutput list) (tr::'a event list).
      \<exists>pend. length pend = length ps \<and> int (length ps) < maxp \<and> W tr pend)"
  define Q where "Q = (\<lambda>r::(error + RedactorOutput list) \<times> 'a event list. W (snd r) [])"
  have close: "W (tr @ [AwaitAll]) []" if "W tr pend" "int (length pend) \<le> maxp" for tr pend
  proof -
    from that obtain ws where "tr = concat (map wave ws) @ map Call pend"
      and "\<forall>w\<in>set ws. int (length w) \<le> maxp"
      by (auto simp: W_def)
    with that(2) have "tr @ [AwaitAll] = concat (map wave (ws @ [pend])) @ map Call []"
      and "\<forall>w\<in>set (ws @ [pend]). int (length w) \<le> maxp"
      by (simp_all add: wave_def)
    then show ?thesis unfolding W_def by blast
  qed
  have extend: "W (tr @ [Call b]) (pend @ [b])" if "W tr pend" for tr pend b
    using that by (auto simp: W_def)
  have "Q (res, tr)"
  proof (rule batchLoop_rule [OF run, where I = I and Q = Q], goal_cases)
    case 1
    have "W [] []" unfolding W_def by (intro exI [of _ "[]"]) simp
    with maxp show ?case by (simp add: I_def)
  next
    case (2 ps start brs tr)
    then obtain pend where "length pend = length ps" "W tr pend"
      by (auto simp: I_def)
    with 2 extend [of tr pend] show ?case
      unfolding I_def by (intro exI [of _ "pend @ [slice start (start + S)]"]) simp
  next
    case (3 ps start brs tr vs)
    then obtain pend where p: "length pend = length ps" "int (length ps) < maxp" "W tr pend"
      by (auto simp: I_def)
    from close [OF extend [OF p(3)], of "slice start (start + S)"] p
    have "W (tr @ [Call (slice start (start + S)), AwaitAll]) []" by simp
    with maxp show ?case
      unfolding I_def by (intro exI [of _ "[]"]) simp
  next
    case (4 ps start brs tr e)
    then obtain pend where p: "length pend = length ps" "int (length ps) < maxp" "W tr pend"
      by (auto simp: I_def)
    from close [OF extend [OF p(3)], of "slice start (start + S)"] p
    show ?case by (simp add: Q_def)
  next
    case (5 ps start brs tr vs)
    then obtain pend where p: "length pend = length ps" "int (length ps) < maxp" "W tr pend"
      by (auto simp: I_def)
    from close [OF p(3)] p show ?case by (simp add: Q_def)
  next
    case (6 ps start brs tr e)
    then obtain pend where p: "length pend = length ps" "int (length ps) < maxp" "W tr pend"
      by (auto simp: I_def)
    from close [OF p(3)] p show ?case by (simp add: Q_def)
  qed
  then show ?thesis by (simp add: Q_def W_def)
qed

text \<open>
  C7. With \<^verbatim>\<open>MAX_PROMISES\<close> at least 1 (its default is 5), at no moment of a run of
  \<^verbatim>\<open>redactAsync\<close> or \<^verbatim>\<open>inspectStructured\<close> are more than \<^verbatim>\<open>MAX_PROMISES\<close> calls in
  flight, and the run is a sequence of waves, each of at most \<^verbatim>\<open>MAX_PROMISES\<close> calls
  followed by the await that settles them: no call of a wave is issued before the await of
  the wave before it. The runs end when the batch size is positive.
\<close>

theorem batch_calls_in_flight:
  assumes "1 \<le> MAX_PROMISES env"
  shows "(\<forall>res tr. redactAsync_run env opts engine t flt = Some (res, tr) \<longrightarrow>
            (\<forall>k\<le>length tr. int (inFlight (take k tr)) \<le> MAX_PROMISES env)
          \<and> (\<exists>ws. tr = concat (map wave ws)
                \<and> (\<forall>w\<in>set ws. int (length w) \<le> MAX_PROMISES env)))
     \<and> (\<forall>res tr. inspectStructured_run env opts tableEngine headers rows flt = Some (res, tr) \<longrightarrow>
            (\<forall>k\<le>length tr. int (inFlight (take k tr)) \<le> MAX_PROMISES env)
          \<and> (\<exists>ws. tr = concat (map wave ws)
                \<and> (\<forall>w\<in>set ws. int (length w) \<le> MAX_PROMISES env)))
     \<and> (0 < maxContentSize env opts \<longrightarrow>
          (\<exists>res tr. redactAsync_run env opts engine t flt = Some (res, tr)))
     \<and> ((\<forall>m. structuredMaxContentSize headers = Some m \<longrightarrow> 0 < m) \<longrightarrow>
          (\<exists>res tr. inspectStructured_run env opts tableEngine headers rows flt = Some (res, tr)))
     \<and> MAX_PROMISES_of None = 5"
proof -
  have single: "bounded (MAX_PROMISES env) [Call b, AwaitAll]
      \<and> (\<exists>ws. [Call b, AwaitAll] = concat (map wave ws)
            \<and> (\<forall>w\<in>set ws. int (length w) \<le> MAX_PROMISES env))" for b :: 'b
  proof
    show "bounded (MAX_PROMISES env) [Call b, AwaitAll]"
      unfolding bounded_def
    proof (intro allI impI)
      fix k assume "k \<le> length [Call b, AwaitAll]"
      then consider "k = 0" | "k = Suc 0" | "k = Suc (Suc 0)"
        by (auto simp: le_Suc_eq)
      then show "int (inFlight (take k [Call b, AwaitAll])) \<le> MAX_PROMISES env"
        by cases (use assms in \<open>simp_all add: inFlight_def\<close>)
    qed
    show "\<exists>ws. [Call b, AwaitAll] = concat (map wave ws)
            \<and> (\<forall>w\<in>set ws. int (length w) \<le> MAX_PROMISES env)"
      using assms by (intro exI [of _ "[[b]]"]) (simp add: wave_def)
  qed
  have text_runs: "bounded (MAX_PROMISES env) tr
      \<and> (\<exists>ws. tr = concat (map wave ws) \<and> (\<forall>w\<in>set ws. int (length w) \<le> MAX_PROMISES env))"
    if run: "redactAsync_run env opts engine t flt = Some (res, tr)" for res tr
  proof (cases "maxContentSize env opts < of_nat (length t)
      \<and> \<not> disableAutoBatchWhenContentSizeExceedsLimit opts")
    case False
    with run have "tr = [Call t, AwaitAll]"
      by (auto simp: redactAsync_run_def)
    with single show ?thesis by simp
  next
    case True
    with run obtain bres where
      "batchLoop (js_substring t) (\<lambda>batchText. doRedactAsync opts engine batchText flt False)
         (of_nat (length t)) (maxContentSize env opts) (MAX_PROMISES env) [] 0 [] [] = Some (bres, tr)"
      by (auto simp: redactAsync_run_def split: option.splits sum.splits)
    from batchLoop_bounded [OF this assms] batchLoop_waves [OF this assms]
    show ?thesis by simp
  qed
  have table_runs: "bounded (MAX_PROMISES env) tr
      \<and> (\<exists>ws. tr = concat (map wave ws) \<and> (\<forall>w\<in>set ws. int (length w) \<le> MAX_PROMISES env))"
    if run: "inspectStructured_run env opts tableEngine headers rows flt = Some (res, tr)"
    for res tr
  proof (cases "\<exists>m. structuredMaxContentSize headers = Some m \<and> m < int (length rows)")
    case False
    with run have "tr = [Call (headers, rows), AwaitAll]"
      by (auto simp: inspectStructured_run_def split: option.splits if_splits)
    with single show ?thesis by simp
  next
    case True
    then obtain m where "structuredMaxContentSize headers = Some m" "m < int (length rows)"
      by blast
    with run obtain bres where
      "batchLoop (\<lambda>i j. (headers, js_slice rows i j))
         (\<lambda>(hs, rowsBatch). doInspectStructured opts tableEngine hs rowsBatch flt)
         (of_nat (length rows)) (of_int m) (MAX_PROMISES env) [] 0 [] [] = Some (bres, tr)"
      by (auto simp: inspectStructured_run_def split: option.splits sum.splits)
    from batchLoop_bounded [OF this assms] batchLoop_waves [OF this assms]
    show ?thesis by simp
  qed
  have text_ends: "\<exists>res tr. redactAsync_run env opts engine t flt = Some (res, tr)"
    if "0 < maxContentSize env opts"
  proof -
    from batchLoop_terminates [OF that] obtain r where
      "batchLoop (js_substring t) (\<lambda>batchText. doRedactAsync opts engine batchText flt False)
         (of_nat (length t)) (maxContentSize env opts) (MAX_PROMISES env) [] 0 [] [] = Some r"
      by blast
    then show ?thesis
      by (cases r) (auto simp: redactAsync_run_def split: sum.splits)
  qed
  have table_ends: "\<exists>res tr. inspectStructured_run env opts tableEngine headers rows flt
      = Some (res, tr)"
    if pos: "\<forall>m. structuredMaxContentSize headers = Some m \<longrightarrow> 0 < m"
  proof (cases "structuredMaxContentSize headers")
    case None
    then show ?thesis by (simp add: inspectStructured_run_def)
  next
    case (Some m)
    with pos have "(0::rat) < of_int m" by simp
    from batchLoop_terminates [OF this] obtain r where
      "batchLoop (\<lambda>i j. (headers, js_slice rows i j))
         (\<lambda>(hs, rowsBatch). doInspectStructured opts tableEngine hs rowsBatch flt)
         (of_nat (length rows)) (of_int m) (MAX_PROMISES env) [] 0 [] [] = Some r"
      by blast
    with Some show ?thesis
      by (cases r) (auto simp: inspectStructured_run_def split: sum.splits)
  qed
  have "MAX_PROMISES_of None = 5"
    by (simp add: MAX_PROMISES_of_def)
  with text_runs table_runs text_ends table_ends show ?thesis
    unfolding bounded_def by blast
qed


theorem batch_calls_in_flight_witness:
  "1 \<le> MAX_PROMISES small_env
   \<and> (\<exists>res tr. redactAsync_run small_env no_opts (\<lambda>t. Inr []) ''My name is John D.''
          (Some Map.empty) = Some (res, tr)
        \<and> tr = concat (map wave [[''My n'', ''ame ''], [''is J'', ''ohn ''], [''D.'']])
        \<and> inFlight (take 2 tr) = 2
        \<and> int (inFlight (take 2 tr)) \<le> MAX_PROMISES small_env)"
proof -
  let ?tr = "[Call ''My n'', Call ''ame '', AwaitAll, Call ''is J'', Call ''ohn '', AwaitAll,
            Call ''D.'', AwaitAll]"
  have hyp: "1 \<le> MAX_PROMISES small_env"
    by (simp add: small_env_def)
  from batch_calls_in_flight [OF hyp, of no_opts "\<lambda>t. Inr []" "''My name is John D.''"
      "Some Map.empty"] small_run
  have "\<forall>k\<le>length ?tr. int (inFlight (take k ?tr)) \<le> MAX_PROMISES small_env"
    by blast
  from this [rule_format, of 2] have "int (inFlight (take 2 ?tr)) \<le> MAX_PROMISES small_env"
    by simp
  moreover have "inFlight (take 2 ?tr) = 2"
    by (simp add: inFlight_def)
  moreover have "?tr = concat (map wave [[''My n'', ''ame ''], [''is J'', ''ohn ''], [''D.'']])"
    by (simp add: wave_def)
  ultimately show ?thesis
    using hyp small_run by (intro conjI exI) (assumption | simp)+
qed


section \<open>Batches of a table\<close>

lemma batchLoop_diverges:
  assumes "S \<le> 0" and "0 < n" and ok: "\<And>b. \<exists>out. call b = Inr out"
  shows "batchLoop slice call n S maxp [] 0 [] [] = None"
proof (rule ccontr)
  assume "batchLoop slice call n S maxp [] 0 [] [] \<noteq> None"
  then obtain res tr where run: "batchLoop slice call n S maxp [] 0 [] [] = Some (res, tr)"
    by auto
  from batchLoop_nonpositive_size [OF run assms(1,2)] batchLoop_all_ok [OF run ok]
  show False by auto
qed

lemma js_slice_length:
  assumes "0 \<le> start" and "0 \<le> m"
  shows "int (length (js_slice xs start (start + of_int m))) \<le> m"
proof -
  define A where "A = \<lfloor>start\<rfloor>"
  from assms have "js_toInteger start = A" and "js_toInteger (start + of_int m) = A + m"
    and "0 \<le> A"
    by (simp_all add: js_toInteger_def A_def)
  with assms(2) show ?thesis
    by (auto simp: js_slice_def Let_def min_def)
qed

lemma batchLoop_calls:
  assumes run: "batchLoop slice call n S maxp [] 0 [] [] = Some (res, tr)"
    and S: "0 \<le> S"
    and P: "\<And>start. 0 \<le> start \<Longrightarrow> P (slice start (start + S))"
  shows "\<forall>b\<in>set (calls tr). P b"
proof -
  have "\<forall>b\<in>set (calls (snd (res, tr))). P b"
    by (rule batchLoop_rule [OF run, where I = "\<lambda>ps start brs tr. 0 \<le> start \<and> (\<forall>b\<in>set (calls tr). P b)"
          and Q = "\<lambda>r. \<forall>b\<in>set (calls (snd r)). P b"])
      (use S P in auto)
  then show ?thesis by simp
qed


text \<open>
  A table whose computed batch size \<open>\<lfloor>50000 / H / 2\<rfloor> - 1\<close> is positive: the run ends, every
  request carries the header list as it was given, and at most that many rows.
\<close>

theorem inspectStructured_batches:
  assumes size: "structuredMaxContentSize headers = Some m" and pos: "0 < m"
  shows "m = 50000 div int (length headers) div 2 - 1
     \<and> (\<exists>res tr. inspectStructured_run env opts tableEngine headers rows flt = Some (res, tr)
          \<and> (\<forall>b\<in>set (calls tr). fst b = headers \<and> int (length (snd b)) \<le> m))"
proof -
  from size have m: "m = 50000 div int (length headers) div 2 - 1"
    by (simp add: structuredMaxContentSize_def split: if_splits)
  let ?call = "\<lambda>(hs, rowsBatch). doInspectStructured opts tableEngine hs rowsBatch flt"
  show ?thesis
  proof (cases "m < int (length rows)")
    case False
    with size have "inspectStructured_run env opts tableEngine headers rows flt
        = Some (doInspectStructured opts tableEngine headers rows flt,
                [Call (headers, rows), AwaitAll])"
      by (simp add: inspectStructured_run_def)
    with False m show ?thesis
      by (simp add: calls_def)
  next
    case True
    from pos have pos': "(0::rat) < of_int m" by simp
    from batchLoop_terminates [OF pos'] obtain bres tr where
      run: "batchLoop (\<lambda>i j. (headers, js_slice rows i j)) ?call
         (of_nat (length rows)) (of_int m) (MAX_PROMISES env) [] 0 [] [] = Some (bres, tr)"
      by (metis surj_pair)
    have "\<forall>b\<in>set (calls tr). fst b = headers \<and> int (length (snd b)) \<le> m"
      by (rule batchLoop_calls [OF run]) (use pos js_slice_length [of _ m rows] in auto)
    moreover from size True run
    have "inspectStructured_run env opts tableEngine headers rows flt
        = Some (case bres of Inl e \<Rightarrow> Inl e | Inr brs \<Rightarrow> mergeResults brs, tr)"
      by (simp add: inspectStructured_run_def split: sum.splits)
    ultimately show ?thesis
      using m by blast
  qed
qed

lemma table_run:
  "inspectStructured_run small_env no_opts (\<lambda>hs rs. Inr None) (replicate 12500 ''c'')
     [[''a''], [''b''], [''d'']] (Some Map.empty)
   = Some (Inr \<lparr>config_infoTypes = [], metrics_findingsCap = 0, metrics_maxFindings = 0,
                output_text = [], findings = []\<rparr>,
           [Call (replicate 12500 ''c'', [[''a'']]), Call (replicate 12500 ''c'', [[''b'']]),
            AwaitAll, Call (replicate 12500 ''c'', [[''d'']]), AwaitAll])"
  by (simp add: inspectStructured_run_def structuredMaxContentSize_def small_env_def no_opts_def
      batchLoop.simps js_slice_def js_toInteger_def doInspectStructured_def
      getInspectConfig_names_def mergeResults_def Let_def)

theorem inspectStructured_batches_witness:
  "structuredMaxContentSize (replicate 12500 ''c'') = Some 1 \<and> (0::int) < 1
   \<and> (\<exists>res tr. inspectStructured_run small_env no_opts (\<lambda>hs rs. Inr None)
          (replicate 12500 ''c'') [[''a''], [''b''], [''d'']] (Some Map.empty) = Some (res, tr)
        \<and> calls tr = [(replicate 12500 ''c'', [[''a'']]), (replicate 12500 ''c'', [[''b'']]),
             (replicate 12500 ''c'', [[''d'']])]
        \<and> fst (calls tr ! 2) = replicate 12500 ''c''
        \<and> int (length (snd (calls tr ! 2))) \<le> 1)"
proof -
  let ?tr = "[Call (replicate 12500 ''c'', [[''a'']]), Call (replicate 12500 ''c'', [[''b'']]),
            AwaitAll, Call (replicate 12500 ''c'', [[''d'']]), AwaitAll]"
  have size: "structuredMaxContentSize (replicate 12500 ''c'') = Some 1"
    by (simp add: structuredMaxContentSize_def)
  have cs: "calls ?tr = [(replicate 12500 ''c'', [[''a'']]), (replicate 12500 ''c'', [[''b'']]),
             (replicate 12500 ''c'', [[''d'']])]"
    by (simp add: calls_def)
  from inspectStructured_batches [OF size, of small_env no_opts "\<lambda>hs rs. Inr None"
      "[[''a''], [''b''], [''d'']]" "Some Map.empty"] table_run
  have "\<forall>b\<in>set (calls ?tr). fst b = replicate 12500 ''c'' \<and> int (length (snd b)) \<le> 1"
    by simp
  with cs have "fst (calls ?tr ! 2) = replicate 12500 ''c''"
    and "int (length (snd (calls ?tr ! 2))) \<le> 1"
    by simp_all
  with size cs table_run show ?thesis
    by (intro conjI exI) (assumption | simp)+
qed

text \<open>
  C8. For a table of 25001 columns the computed batch size is -1. The first batch then is
  \<^verbatim>\<open>rows.slice(0, -1)\<close>, all rows but the last: of two rows one, more than the computed
  maximum. The start index moves down from there and the loop never ends; with an engine
  that answers every call the request does not return.
\<close>

theorem inspectStructured_wide_table:
  "structuredMaxContentSize (replicate 25001 ''c'') = Some (- 1)
   \<and> js_slice [[''a''], [''b'']] 0 (0 + (- 1)) = [[''a'']]
   \<and> inspectStructured default_env no_opts (\<lambda>hs rs. Inr None) (replicate 25001 ''c'')
        [[''a''], [''b'']] (Some Map.empty) = None"
proof -
  have size: "structuredMaxContentSize (replicate 25001 ''c'') = Some (- 1)"
    by (simp add: structuredMaxContentSize_def)
  have first: "js_slice [[''a''], [''b'']] 0 (0 + (- 1)) = [[''a'']]"
    by (simp add: js_slice_def js_toInteger_def ceiling_minus)
  have "batchLoop (\<lambda>i j. (replicate 25001 ''c'', js_slice [[''a''], [''b'']] i j))
         (\<lambda>(hs, rowsBatch). doInspectStructured no_opts (\<lambda>hs rs. Inr None) hs rowsBatch
            (Some Map.empty))
         (of_nat (length [[''a''], [''b'']])) (of_int (- 1)) (MAX_PROMISES default_env) [] 0 [] []
       = None"
    by (rule batchLoop_diverges) (auto simp: doInspectStructured_def)
  with size have "inspectStructured default_env no_opts (\<lambda>hs rs. Inr None)
      (replicate 25001 ''c'') [[''a''], [''b'']] (Some Map.empty) = None"
    by (simp add: inspectStructured_def inspectStructured_run_def)
  with size first show ?thesis by simp
qed

end
